theory Spec2Isabelle
  imports Main "HOL-Library.Word"
begin

section \<open>The plug-in bank (src/modules/bank.c)\<close>

text \<open>
  A shallow embedding of the module bank of VLC: the reference-counted registry of plug-in
  descriptors, the dynamic loader, the bounded directory walk that discovers plug-ins, the
  lazy mapping of cached descriptors and the two enumeration functions.

  Conventions of the embedding.
  \<^item> The static \<^verbatim>\<open>modules\<close> structure is the \<open>libs\<close>, \<open>caches\<close> and \<open>usage\<close>
    fields of the record \<open>state\<close>; the mutex is left out (one thread is modelled).
  \<^item> Everything bank.c calls but does not define (the dynamic linker, the file system,
    the describe protocol, the cache file reader, configuration flags, build-time
    string macros) is a field of the record \<open>host\<close>, so every theorem holds for each
    choice of these.
  \<^item> Calls that leave the process (dynamic linker, directory opening, cache saving) and
    releases of descriptors are appended to \<open>trace\<close>, oldest first.
  \<^item> A heap allocation may fail: the \<open>k\<close>-th allocation of a run fails iff
    \<open>out_of_memory host k\<close>; \<open>allocs\<close> counts the allocations made so far.
  \<^item> A failed \<^verbatim>\<open>assert\<close>, a write through a null pointer, an \<^verbatim>\<open>abort\<close> and a write
    past the end of an array stop the run with a \<open>fault\<close>.
\<close>

subsection \<open>Data\<close>

type_synonym module_handle = nat
type_synonym plugin_cb = nat
type_synonym block = "nat list"

text \<open>
  A configuration item, as far as bank.c reads it: \<^verbatim>\<open>list_count\<close> and the two callback
  pointers \<^verbatim>\<open>list.psz_cb\<close> and \<^verbatim>\<open>list.i_cb\<close> (\<open>None\<close> is the null pointer).
\<close>

record module_config =
  list_count :: nat
  psz_cb :: "nat option"
  i_cb :: "nat option"

text \<open>
  \<^verbatim>\<open>module_t\<close>. The chain \<^verbatim>\<open>submodule\<close>, \<^verbatim>\<open>submodule->next\<close>, ... is the list \<open>submodule\<close>;
  the array \<^verbatim>\<open>p_config\<close> with its length \<^verbatim>\<open>confsize\<close> is the list \<open>p_config\<close>;
  \<^verbatim>\<open>i_score\<close> is a C \<^verbatim>\<open>int\<close>, read with \<open>sint\<close>.
\<close>

datatype module_t = Module
  (psz_capability: string)
  (i_score: "32 word")
  (b_loaded: bool)
  (b_unloadable: bool)
  (psz_filename: "string option")
  (handle: module_handle)
  (p_config: "module_config list")
  (submodule: "module_t list")
  (submodule_count: nat)

definition confsize :: "module_t \<Rightarrow> nat" where
  "confsize m = length (p_config m)"

definition set_b_loaded :: "bool \<Rightarrow> module_t \<Rightarrow> module_t" where
  "set_b_loaded v m = Module (psz_capability m) (i_score m) v (b_unloadable m)
     (psz_filename m) (handle m) (p_config m) (submodule m) (submodule_count m)"

definition set_b_unloadable :: "bool \<Rightarrow> module_t \<Rightarrow> module_t" where
  "set_b_unloadable v m = Module (psz_capability m) (i_score m) (b_loaded m) v
     (psz_filename m) (handle m) (p_config m) (submodule m) (submodule_count m)"

definition set_psz_filename :: "string option \<Rightarrow> module_t \<Rightarrow> module_t" where
  "set_psz_filename v m = Module (psz_capability m) (i_score m) (b_loaded m) (b_unloadable m)
     v (handle m) (p_config m) (submodule m) (submodule_count m)"

definition set_handle :: "module_handle \<Rightarrow> module_t \<Rightarrow> module_t" where
  "set_handle v m = Module (psz_capability m) (i_score m) (b_loaded m) (b_unloadable m)
     (psz_filename m) v (p_config m) (submodule m) (submodule_count m)"

text \<open>
  \<^verbatim>\<open>vlc_plugin_t\<close>. The link \<^verbatim>\<open>next\<close> is the position in a list. The primary module is
  always present: bank.c asserts \<^verbatim>\<open>module != NULL\<close> at each use, and the type keeps it so.
\<close>

record vlc_plugin =
  module :: module_t
  path :: "string option"
  mtime :: int
  size_p :: int

datatype file_type = S_IFREG | S_IFDIR | S_IFOTHER

record stat =
  st_mode :: file_type
  st_mtime :: int
  st_size :: int

datatype cache_mode = CACHE_USE | CACHE_RESET | CACHE_IGNORE

text \<open>\<^verbatim>\<open>module_bank_t\<close>; the array \<^verbatim>\<open>plugins\<close> with its length \<^verbatim>\<open>size\<close> is a list.\<close>

record module_bank =
  base :: string
  mode :: cache_mode
  plugins :: "vlc_plugin list"
  cache :: "vlc_plugin list"

datatype event =
    DlLoad string bool
  | DlUnload module_handle
  | Opendir string
  | PluginDestroy vlc_plugin
  | BlockRelease block
  | CacheSaved string "vlc_plugin list"

datatype fault = NullDeref | AssertFailed | Aborted | HeapOverflow

record state =
  libs :: "vlc_plugin list"
  caches :: "block list"
  usage :: "32 word"
  trace :: "event list"
  allocs :: nat

record host =
  vlc_plugin_describe :: "plugin_cb \<Rightarrow> vlc_plugin option"
  module_Load :: "string \<Rightarrow> bool \<Rightarrow> module_handle option"
  module_Lookup :: "module_handle \<Rightarrow> string \<Rightarrow> plugin_cb option"
  vlc_opendir :: "string \<Rightarrow> string list option"
  vlc_stat :: "string \<Rightarrow> stat option"
  vlc_cache_load :: "string \<Rightarrow> (block \<times> vlc_plugin list) option"
  module_provides :: "module_t \<Rightarrow> string \<Rightarrow> bool"
  out_of_memory :: "nat \<Rightarrow> bool"
  vlc_entry_core :: plugin_cb
  vlc_static_modules :: "plugin_cb list option"
  plugins_cache :: bool
  reset_plugins_cache :: bool
  config_GetLibDir :: "string option"
  VLC_PLUGIN_PATH :: "string option"
  LIBEXT :: string
  DIR_SEP :: string
  PATH_SEP :: string
  EXTERN_PREFIX :: string
  MODULE_SUFFIX :: string

subsection \<open>Allocation, tracing\<close>

definition alloc :: "host \<Rightarrow> state \<Rightarrow> bool \<times> state" where
  "alloc h s = (\<not> out_of_memory h (allocs s), s\<lparr>allocs := Suc (allocs s)\<rparr>)"

definition emit :: "event \<Rightarrow> state \<Rightarrow> state" where
  "emit e s = s\<lparr>trace := trace s @ [e]\<rparr>"

subsection \<open>Registering descriptors\<close>

text \<open>\<^verbatim>\<open>module_StoreBank\<close>: the descriptor becomes the head of \<^verbatim>\<open>modules.libs\<close>.\<close>

definition module_StoreBank :: "vlc_plugin \<Rightarrow> state \<Rightarrow> state" where
  "module_StoreBank lib s = s\<lparr>libs := lib # libs s\<rparr>"

text \<open>\<^verbatim>\<open>module_InitStatic\<close>: describe a statically linked plug-in and stamp it.\<close>

definition module_InitStatic :: "host \<Rightarrow> plugin_cb \<Rightarrow> vlc_plugin option" where
  "module_InitStatic h entry =
     (case vlc_plugin_describe h entry of
        None \<Rightarrow> None
      | Some lib \<Rightarrow>
          Some (lib\<lparr>module := set_b_unloadable False (set_b_loaded True (module lib))\<rparr>))"

text \<open>\<^verbatim>\<open>module_InitStaticModules\<close>: the weak table \<^verbatim>\<open>vlc_static_modules\<close> may be absent.\<close>

fun static_loop :: "host \<Rightarrow> plugin_cb list \<Rightarrow> state \<Rightarrow> state" where
  "static_loop h [] s = s"
| "static_loop h (e # es) s =
     (case module_InitStatic h e of
        None \<Rightarrow> static_loop h es s
      | Some lib \<Rightarrow> static_loop h es (module_StoreBank lib s))"

definition module_InitStaticModules :: "host \<Rightarrow> state \<Rightarrow> state" where
  "module_InitStaticModules h s =
     (case vlc_static_modules h of None \<Rightarrow> s | Some es \<Rightarrow> static_loop h es s)"

subsection \<open>The dynamic loader\<close>

definition entry_name :: "host \<Rightarrow> string" where
  "entry_name h = EXTERN_PREFIX h @ ''vlc_entry'' @ MODULE_SUFFIX h"

text \<open>
  \<^verbatim>\<open>module_InitDynamic\<close>: load the shared object, resolve the entry point, describe the
  plug-in, record file name and handle. Every failure after the load unloads the handle
  (the label \<^verbatim>\<open>error\<close>) and returns the null pointer (\<open>None\<close>).
\<close>

definition module_InitDynamic ::
    "host \<Rightarrow> string \<Rightarrow> bool \<Rightarrow> state \<Rightarrow> vlc_plugin option \<times> state" where
  "module_InitDynamic h pth fast s =
     (let s1 = emit (DlLoad pth fast) s in
      case module_Load h pth fast of
        None \<Rightarrow> (None, s1)
      | Some hdl \<Rightarrow>
          (case module_Lookup h hdl (entry_name h) of
             None \<Rightarrow> (None, emit (DlUnload hdl) s1)
           | Some entry \<Rightarrow>
               (case vlc_plugin_describe h entry of
                  None \<Rightarrow> (None, emit (DlUnload hdl) s1)
                | Some plugin \<Rightarrow>
                    (case alloc h s1 of
                       (False, s2) \<Rightarrow>
                         (None, emit (DlUnload hdl) (emit (PluginDestroy plugin) s2))
                     | (True, s2) \<Rightarrow>
                         (Some (plugin\<lparr>module :=
                             set_b_loaded True
                               (set_handle hdl
                                 (set_psz_filename (Some pth) (module plugin)))\<rparr>),
                          s2)))))"

subsection \<open>The cache interface (src/modules/cache.c, not part of the sources at hand)\<close>

text \<open>
  Modelled from the spec: \<^verbatim>\<open>vlc_cache_lookup\<close> (cache.c is absent). It searches the list
  for an entry with matching relative path, mtime and size; on a match it detaches the
  entry from the list and returns it, otherwise it returns nothing and leaves the list.
\<close>

fun vlc_cache_lookup ::
    "vlc_plugin list \<Rightarrow> string \<Rightarrow> stat \<Rightarrow> vlc_plugin option \<times> vlc_plugin list" where
  "vlc_cache_lookup [] relpath st = (None, [])"
| "vlc_cache_lookup (p # ps) relpath st =
     (if path p = Some relpath \<and> mtime p = st_mtime st \<and> size_p p = st_size st
      then (Some p, ps)
      else (case vlc_cache_lookup ps relpath st of (r, rest) \<Rightarrow> (r, p # rest)))"

text \<open>
  Modelled from the spec: \<^verbatim>\<open>CacheAdd\<close> (cache.c is absent) records a descriptor in the
  plug-in array that a later cache save writes out.
\<close>

definition CacheAdd :: "vlc_plugin \<Rightarrow> module_bank \<Rightarrow> module_bank" where
  "CacheAdd plugin bank = bank\<lparr>plugins := plugins bank @ [plugin]\<rparr>"

subsection \<open>Scanning one file\<close>

text \<open>
  The condition of the loop over the configuration items in \<^verbatim>\<open>AllocatePluginFile\<close>: the
  item has no static list (\<^verbatim>\<open>list_count == 0\<close>; the C field \<^verbatim>\<open>list\<close> is a union that
  holds callbacks only then) and one of its callback pointers is set.
\<close>

definition has_list_cb :: "module_config \<Rightarrow> bool" where
  "has_list_cb c = (list_count c = 0 \<and> \<not> (psz_cb c = None \<and> i_cb c = None))"

text \<open>Lines 186-198: the cache is consulted in mode \<^verbatim>\<open>CACHE_USE\<close> only.\<close>

definition AllocatePluginFile_cached ::
    "host \<Rightarrow> string \<Rightarrow> string \<Rightarrow> stat \<Rightarrow> module_bank \<times> state
      \<Rightarrow> vlc_plugin option \<times> module_bank \<times> state" where
  "AllocatePluginFile_cached h abspath relpath st bs =
     (case bs of (bank, s) \<Rightarrow>
        if mode bank = CACHE_USE then
          (case vlc_cache_lookup (cache bank) relpath st of
             (None, rest) \<Rightarrow> (None, bank\<lparr>cache := rest\<rparr>, s)
           | (Some c, rest) \<Rightarrow>
               (case alloc h s of
                  (True, s1) \<Rightarrow>
                    (Some (c\<lparr>module := set_psz_filename (Some abspath) (module c)\<rparr>),
                     bank\<lparr>cache := rest\<rparr>, s1)
                | (False, s1) \<Rightarrow>
                    (None, bank\<lparr>cache := rest\<rparr>,
                     emit (PluginDestroy (c\<lparr>module := set_psz_filename None (module c)\<rparr>))
                       s1)))
        else (None, bank, s))"

text \<open>
  Lines 199-205. When no descriptor came from the cache, the file is loaded with
  \<^verbatim>\<open>fast = true\<close> and the result is stamped at once:
  \<^verbatim>\<open>plugin->path = xstrdup(relpath)\<close>. \<^verbatim>\<open>xstrdup\<close> aborts when out of memory; the store
  goes through \<^verbatim>\<open>plugin\<close> whether or not the load succeeded, so a failed load is a write
  through the null pointer.
\<close>

definition AllocatePluginFile_load ::
    "host \<Rightarrow> string \<Rightarrow> string \<Rightarrow> stat \<Rightarrow> vlc_plugin option \<Rightarrow> state
      \<Rightarrow> fault + (vlc_plugin option \<times> state)" where
  "AllocatePluginFile_load h abspath relpath st cached s =
     (case cached of
        Some p \<Rightarrow> Inr (Some p, s)
      | None \<Rightarrow>
          (case module_InitDynamic h abspath True s of
             (loaded, s1) \<Rightarrow>
               (case alloc h s1 of
                  (False, s2) \<Rightarrow> Inl Aborted
                | (True, s2) \<Rightarrow>
                    (case loaded of
                       None \<Rightarrow> Inl NullDeref
                     | Some p \<Rightarrow>
                         Inr (Some (p\<lparr>path := Some relpath, mtime := st_mtime st,
                                      size_p := st_size st\<rparr>), s2)))))"

text \<open>
  Lines 214-227: a descriptor that is not loaded and has a callback-bearing
  configuration item is destroyed and the file is loaded again with \<^verbatim>\<open>fast = false\<close>.
  \<open>None\<close> in the result is the early \<^verbatim>\<open>return -1\<close>.
\<close>

definition AllocatePluginFile_force ::
    "host \<Rightarrow> module_bank \<Rightarrow> string \<Rightarrow> vlc_plugin \<Rightarrow> state
      \<Rightarrow> fault + (vlc_plugin option \<times> state)" where
  "AllocatePluginFile_force h bank abspath plugin s =
     (if \<not> b_loaded (module plugin) \<and> list_ex has_list_cb (p_config (module plugin)) then
        (let s1 = emit (PluginDestroy plugin) s in
         if mode bank = CACHE_RESET then Inl AssertFailed
         else Inr (module_InitDynamic h abspath False s1))
      else Inr (Some plugin, s))"

text \<open>
  \<^verbatim>\<open>AllocatePluginFile\<close>. The integer is the return value (0 or -1).
\<close>

definition AllocatePluginFile ::
    "host \<Rightarrow> string \<Rightarrow> string \<Rightarrow> stat \<Rightarrow> module_bank \<times> state
      \<Rightarrow> fault + (int \<times> module_bank \<times> state)" where
  "AllocatePluginFile h abspath relpath st bs =
     (case AllocatePluginFile_cached h abspath relpath st bs of
        (cached, bank1, s1) \<Rightarrow>
          (case AllocatePluginFile_load h abspath relpath st cached s1 of
             Inl f \<Rightarrow> Inl f
           | Inr (None, s2) \<Rightarrow> Inr (- 1, bank1, s2)
           | Inr (Some plugin, s2) \<Rightarrow>
               (case AllocatePluginFile_force h bank1 abspath plugin s2 of
                  Inl f \<Rightarrow> Inl f
                | Inr (None, s3) \<Rightarrow> Inr (- 1, bank1, s3)
                | Inr (Some plugin', s3) \<Rightarrow>
                    Inr (0,
                         if mode bank1 \<noteq> CACHE_IGNORE then CacheAdd plugin' bank1 else bank1,
                         module_StoreBank plugin' s3))))"

subsection \<open>Walking a directory\<close>

text \<open>
  Lines 287-295, the branch compiled where file names are not length-restricted (not
  OS/2): the name is longer than the suffix, starts with \<^verbatim>\<open>lib\<close> and ends with
  \<^verbatim>\<open>_plugin\<close> followed by \<^verbatim>\<open>LIBEXT\<close>.
\<close>

definition is_plugin_name :: "host \<Rightarrow> string \<Rightarrow> bool" where
  "is_plugin_name h file =
     (let prefix = ''lib''; suffix = ''_plugin'' @ LIBEXT h; len = length file in
      len > length suffix
      \<and> take (length prefix) file = prefix
      \<and> drop (len - length suffix) file = suffix)"

text \<open>
  \<^verbatim>\<open>AllocatePluginDir\<close>, the body of its \<^verbatim>\<open>for (;;)\<close> loop for one entry that
  \<^verbatim>\<open>vlc_readdir\<close> yields (\<open>AllocatePluginDir_entry\<close>: every \<^verbatim>\<open>continue\<close> and \<^verbatim>\<open>goto skip\<close>
  ends it), and the loop over the entries. \<^verbatim>\<open>maxdepth\<close> is decremented only after the
  test against 0, so a natural number models the \<^verbatim>\<open>unsigned\<close> exactly. The return value
  of \<^verbatim>\<open>AllocatePluginFile\<close> is dropped, as in the source; a fault stops the walk.
\<close>

function (sequential) AllocatePluginDir ::
    "host \<Rightarrow> nat \<Rightarrow> string \<Rightarrow> string option \<Rightarrow> module_bank \<times> state
      \<Rightarrow> fault + (module_bank \<times> state)"
and AllocatePluginDir_entry ::
    "host \<Rightarrow> nat \<Rightarrow> string option \<Rightarrow> string \<Rightarrow> module_bank \<times> state
      \<Rightarrow> fault + (module_bank \<times> state)"
and AllocatePluginDir_loop ::
    "host \<Rightarrow> nat \<Rightarrow> string option \<Rightarrow> string list \<Rightarrow> module_bank \<times> state
      \<Rightarrow> fault + (module_bank \<times> state)"
where
  "AllocatePluginDir h maxdepth absdir reldir (bank, s) =
     (if maxdepth = 0 then Inr (bank, s)
      else
        (case vlc_opendir h absdir of
           None \<Rightarrow> Inr (bank, emit (Opendir absdir) s)
         | Some files \<Rightarrow>
             AllocatePluginDir_loop h (maxdepth - 1) reldir files
               (bank, emit (Opendir absdir) s)))"
| "AllocatePluginDir_entry h maxdepth reldir file (bank, s) =
     (if file = ''.'' \<or> file = ''..'' then Inr (bank, s)
      else
        (case alloc h s of
           (False, s1) \<Rightarrow> Inr (bank, s1)
         | (True, s1) \<Rightarrow>
             (let relpath = (case reldir of None \<Rightarrow> file
                             | Some d \<Rightarrow> d @ DIR_SEP h @ file) in
              case alloc h s1 of
                (False, s2) \<Rightarrow> Inr (bank, s2)
              | (True, s2) \<Rightarrow>
                  (let abspath = base bank @ DIR_SEP h @ relpath in
                   case vlc_stat h abspath of
                     None \<Rightarrow> Inr (bank, s2)
                   | Some st \<Rightarrow>
                       if st_mode st = S_IFREG then
                         (if is_plugin_name h file then
                            (case AllocatePluginFile h abspath relpath st (bank, s2) of
                               Inl f \<Rightarrow> Inl f
                             | Inr (r, bs') \<Rightarrow> Inr bs')
                          else Inr (bank, s2))
                       else if st_mode st = S_IFDIR then
                         AllocatePluginDir h maxdepth abspath (Some relpath) (bank, s2)
                       else Inr (bank, s2)))))"
| "AllocatePluginDir_loop h maxdepth reldir [] bs = Inr bs"
| "AllocatePluginDir_loop h maxdepth reldir (file # files) bs =
     (case AllocatePluginDir_entry h maxdepth reldir file bs of
        Inl f \<Rightarrow> Inl f
      | Inr bs' \<Rightarrow> AllocatePluginDir_loop h maxdepth reldir files bs')"
  by pat_completeness auto

text \<open>
  The walk terminates: a call for a directory passes a smaller \<^verbatim>\<open>maxdepth\<close> to its loop;
  the loop passes its own \<^verbatim>\<open>maxdepth\<close> on and shortens the list of entries.
\<close>

termination
  by (relation "measures
        [\<lambda>x. case x of Inl (h, d, a, r, bs) \<Rightarrow> d
                 | Inr (Inl (h, d, r, f, bs)) \<Rightarrow> d
                 | Inr (Inr (h, d, r, fs, bs)) \<Rightarrow> d,
         \<lambda>x. case x of Inl (h, d, a, r, bs) \<Rightarrow> 0
                 | Inr (Inl (h, d, r, f, bs)) \<Rightarrow> 1
                 | Inr (Inr (h, d, r, fs, bs)) \<Rightarrow> 2 + 2 * length fs]") auto

text \<open>
  The same walk with a budget for the nesting of calls of \<^verbatim>\<open>AllocatePluginDir\<close>: an
  activation needs one unit, and what is left is what the calls it makes may use. \<open>None\<close>
  means that the budget did not suffice. The budget is not derived from \<^verbatim>\<open>maxdepth\<close>; it
  measures how deep the recursion of the code goes.
\<close>

function (sequential) AllocatePluginDir_fuel ::
    "nat \<Rightarrow> host \<Rightarrow> nat \<Rightarrow> string \<Rightarrow> string option \<Rightarrow> module_bank \<times> state
      \<Rightarrow> (fault + (module_bank \<times> state)) option"
and AllocatePluginDir_entry_fuel ::
    "nat \<Rightarrow> host \<Rightarrow> nat \<Rightarrow> string option \<Rightarrow> string \<Rightarrow> module_bank \<times> state
      \<Rightarrow> (fault + (module_bank \<times> state)) option"
and AllocatePluginDir_loop_fuel ::
    "nat \<Rightarrow> host \<Rightarrow> nat \<Rightarrow> string option \<Rightarrow> string list \<Rightarrow> module_bank \<times> state
      \<Rightarrow> (fault + (module_bank \<times> state)) option"
where
  "AllocatePluginDir_fuel 0 h maxdepth absdir reldir (bank, s) = None"
| "AllocatePluginDir_fuel (Suc n) h maxdepth absdir reldir (bank, s) =
     (if maxdepth = 0 then Some (Inr (bank, s))
      else
        (case vlc_opendir h absdir of
           None \<Rightarrow> Some (Inr (bank, emit (Opendir absdir) s))
         | Some files \<Rightarrow>
             AllocatePluginDir_loop_fuel n h (maxdepth - 1) reldir files
               (bank, emit (Opendir absdir) s)))"
| "AllocatePluginDir_entry_fuel n h maxdepth reldir file (bank, s) =
     (if file = ''.'' \<or> file = ''..'' then Some (Inr (bank, s))
      else
        (case alloc h s of
           (False, s1) \<Rightarrow> Some (Inr (bank, s1))
         | (True, s1) \<Rightarrow>
             (let relpath = (case reldir of None \<Rightarrow> file
                             | Some d \<Rightarrow> d @ DIR_SEP h @ file) in
              case alloc h s1 of
                (False, s2) \<Rightarrow> Some (Inr (bank, s2))
              | (True, s2) \<Rightarrow>
                  (let abspath = base bank @ DIR_SEP h @ relpath in
                   case vlc_stat h abspath of
                     None \<Rightarrow> Some (Inr (bank, s2))
                   | Some st \<Rightarrow>
                       if st_mode st = S_IFREG then
                         (if is_plugin_name h file then
                            (case AllocatePluginFile h abspath relpath st (bank, s2) of
                               Inl f \<Rightarrow> Some (Inl f)
                             | Inr (r, bs') \<Rightarrow> Some (Inr bs'))
                          else Some (Inr (bank, s2)))
                       else if st_mode st = S_IFDIR then
                         AllocatePluginDir_fuel n h maxdepth abspath (Some relpath) (bank, s2)
                       else Some (Inr (bank, s2))))))"
| "AllocatePluginDir_loop_fuel n h maxdepth reldir [] bs = Some (Inr bs)"
| "AllocatePluginDir_loop_fuel n h maxdepth reldir (file # files) bs =
     (case AllocatePluginDir_entry_fuel n h maxdepth reldir file bs of
        None \<Rightarrow> None
      | Some (Inl f) \<Rightarrow> Some (Inl f)
      | Some (Inr bs') \<Rightarrow> AllocatePluginDir_loop_fuel n h maxdepth reldir files bs')"
  by pat_completeness auto

termination
  by (relation "measures
        [\<lambda>x. case x of Inl (n, h, d, a, r, bs) \<Rightarrow> n
                 | Inr (Inl (n, h, d, r, f, bs)) \<Rightarrow> n
                 | Inr (Inr (n, h, d, r, fs, bs)) \<Rightarrow> n,
         \<lambda>x. case x of Inl (n, h, d, a, r, bs) \<Rightarrow> 0
                 | Inr (Inl (n, h, d, r, f, bs)) \<Rightarrow> 1
                 | Inr (Inr (n, h, d, r, fs, bs)) \<Rightarrow> 2 + 2 * length fs]") auto

subsection \<open>Scanning a search root, and all of them\<close>

fun discard_cache :: "vlc_plugin list \<Rightarrow> state \<Rightarrow> state" where
  "discard_cache [] s = s"
| "discard_cache (plugin # rest) s = discard_cache rest (emit (PluginDestroy plugin) s)"

text \<open>
  \<^verbatim>\<open>AllocatePluginPath\<close>. \<^verbatim>\<open>vlc_cache_load\<close> (cache.c, absent) is the host's: it yields
  the cached descriptors of the root together with the block that backs them, and the
  block joins \<^verbatim>\<open>modules.caches\<close>; a missing or damaged cache file is \<open>None\<close>. The walk
  starts with depth 5. Cache entries left unmatched are destroyed; the plug-in array is
  saved in mode \<^verbatim>\<open>CACHE_RESET\<close>.
\<close>

definition AllocatePluginPath :: "host \<Rightarrow> string \<Rightarrow> cache_mode \<Rightarrow> state \<Rightarrow> fault + state" where
  "AllocatePluginPath h pth md s =
     (let bank0 = \<lparr>base = pth, mode = md, plugins = [], cache = []\<rparr>;
          bs1 = (if md = CACHE_USE then
                   (case vlc_cache_load h pth of
                      None \<Rightarrow> (bank0, s)
                    | Some (blob, entries) \<Rightarrow>
                        (bank0\<lparr>cache := entries\<rparr>, s\<lparr>caches := blob # caches s\<rparr>))
                 else (bank0, s))
      in case AllocatePluginDir h 5 pth None bs1 of
           Inl f \<Rightarrow> Inl f
         | Inr (bank2, s2) \<Rightarrow>
             (let s3 = discard_cache (cache bank2) s2 in
              Inr (if md = CACHE_RESET then emit (CacheSaved pth (plugins bank2)) s3
                   else s3)))"

text \<open>
  \<^verbatim>\<open>strtok_r\<close> over the whole string: the maximal non-empty runs of characters that are
  not separators, in order. \<open>acc\<close> is the token being read.
\<close>

fun strtok_all :: "string \<Rightarrow> string \<Rightarrow> string \<Rightarrow> string list" where
  "strtok_all seps acc [] = (if acc = [] then [] else [acc])"
| "strtok_all seps acc (c # cs) =
     (if c \<in> set seps then
        (if acc = [] then strtok_all seps [] cs else acc # strtok_all seps [] cs)
      else strtok_all seps (acc @ [c]) cs)"

fun AllocatePluginPath_each ::
    "host \<Rightarrow> cache_mode \<Rightarrow> string list \<Rightarrow> state \<Rightarrow> fault + state" where
  "AllocatePluginPath_each h md [] s = Inr s"
| "AllocatePluginPath_each h md (pth # pths) s =
     (case AllocatePluginPath h pth md s of
        Inl f \<Rightarrow> Inl f
      | Inr s1 \<Rightarrow> AllocatePluginPath_each h md pths s1)"

definition cache_mode_of :: "host \<Rightarrow> cache_mode" where
  "cache_mode_of h =
     (if \<not> plugins_cache h then CACHE_IGNORE
      else if reset_plugins_cache h then CACHE_RESET
      else CACHE_USE)"

text \<open>
  \<^verbatim>\<open>AllocateAllPlugins\<close> (the branch without \<^verbatim>\<open>VLC_WINSTORE_APP\<close>): the library
  directory joined with \<^verbatim>\<open>plugins\<close>, then each path of \<^verbatim>\<open>VLC_PLUGIN_PATH\<close>.
\<close>

definition AllocateAllPlugins :: "host \<Rightarrow> state \<Rightarrow> fault + state" where
  "AllocateAllPlugins h s =
     (let md = cache_mode_of h in
      case (case config_GetLibDir h of
              None \<Rightarrow> Inr s
            | Some vlcpath \<Rightarrow>
                (case alloc h s of
                   (False, s1) \<Rightarrow> Inr s1
                 | (True, s1) \<Rightarrow>
                     AllocatePluginPath h (vlcpath @ DIR_SEP h @ ''plugins'') md s1)) of
        Inl f \<Rightarrow> Inl f
      | Inr s2 \<Rightarrow>
          (case VLC_PLUGIN_PATH h of
             None \<Rightarrow> Inr s2
           | Some paths \<Rightarrow>
               (case alloc h s2 of
                  (False, s3) \<Rightarrow> Inr s3
                | (True, s3) \<Rightarrow>
                    AllocatePluginPath_each h md (strtok_all (PATH_SEP h) [] paths) s3)))"

subsection \<open>The life cycle of the bank\<close>

text \<open>
  \<^verbatim>\<open>module_InitBank\<close>. \<^verbatim>\<open>usage\<close> is a C \<^verbatim>\<open>unsigned\<close>: the increment wraps at \<open>2 ^ 32\<close>.
  \<^verbatim>\<open>config_SortConfig\<close> does not touch the bank and is left out.
\<close>

definition module_InitBank :: "host \<Rightarrow> state \<Rightarrow> fault + state" where
  "module_InitBank h s =
     (if usage s = 0 then
        (case module_InitStatic h (vlc_entry_core h) of
           None \<Rightarrow> Inl AssertFailed
         | Some plugin \<Rightarrow> Inr ((module_StoreBank plugin s)\<lparr>usage := usage s + 1\<rparr>))
      else Inr (s\<lparr>usage := usage s + 1\<rparr>))"

text \<open>The loop of \<^verbatim>\<open>module_EndBank\<close> over the detached descriptors.\<close>

fun EndBank_release :: "vlc_plugin list \<Rightarrow> state \<Rightarrow> state" where
  "EndBank_release [] s = s"
| "EndBank_release (lib # rest) s =
     (if b_loaded (module lib) \<and> b_unloadable (module lib) then
        EndBank_release rest
          (emit (PluginDestroy (lib\<lparr>module := set_b_loaded False (module lib)\<rparr>))
             (emit (DlUnload (handle (module lib))) s))
      else EndBank_release rest (emit (PluginDestroy lib) s))"

fun block_ChainRelease :: "block list \<Rightarrow> state \<Rightarrow> state" where
  "block_ChainRelease [] s = s"
| "block_ChainRelease (b # bs) s = block_ChainRelease bs (emit (BlockRelease b) s)"

text \<open>
  \<^verbatim>\<open>module_EndBank\<close>. The flag \<^verbatim>\<open>b_plugins\<close> only decides whether the lock is taken.
\<close>

definition module_EndBank :: "bool \<Rightarrow> state \<Rightarrow> fault + state" where
  "module_EndBank b_plugins s =
     (if usage s = 0 then Inl AssertFailed
      else
        (let s1 = s\<lparr>usage := usage s - 1\<rparr> in
         if usage s1 = 0 then
           Inr (block_ChainRelease (caches s1)
                  (EndBank_release (libs s1) (s1\<lparr>libs := [], caches := []\<rparr>)))
         else Inr s1))"

subsection \<open>Enumeration\<close>

text \<open>
  The loop of \<^verbatim>\<open>module_list_get\<close>. \<open>tab\<close> is the table (\<open>None\<close> is the null pointer it
  starts as), whose length is the index \<^verbatim>\<open>i\<close>. Each round reallocates to
  \<^verbatim>\<open>i + 1 + submodule_count\<close> entries and then stores the module and every member of its
  submodule chain; a chain longer than \<^verbatim>\<open>submodule_count\<close> writes past the table.
\<close>

fun module_list_get_loop ::
    "host \<Rightarrow> vlc_plugin list \<Rightarrow> module_t list option \<Rightarrow> state
      \<Rightarrow> fault + (module_t list option \<times> nat) \<times> state" where
  "module_list_get_loop h [] tab s =
     Inr ((tab, (case tab of None \<Rightarrow> 0 | Some xs \<Rightarrow> length xs)), s)"
| "module_list_get_loop h (lib # rest) tab s =
     (case alloc h s of
        (False, s1) \<Rightarrow> Inr ((None, 0), s1)
      | (True, s1) \<Rightarrow>
          (if submodule_count (module lib) < length (submodule (module lib))
           then Inl HeapOverflow
           else module_list_get_loop h rest
                  (Some ((case tab of None \<Rightarrow> [] | Some xs \<Rightarrow> xs)
                         @ module lib # submodule (module lib))) s1))"

definition module_list_get :: "host \<Rightarrow> state \<Rightarrow> fault + (module_t list option \<times> nat) \<times> state" where
  "module_list_get h s = module_list_get_loop h (libs s) None s"

text \<open>
  \<^verbatim>\<open>module_LoadPlugins\<close>: the plug-ins are enrolled when \<^verbatim>\<open>usage\<close> is 1; the count is
  that of a \<^verbatim>\<open>module_list_get\<close> whose table is freed at once.
\<close>

definition module_LoadPlugins :: "host \<Rightarrow> state \<Rightarrow> fault + nat \<times> state" where
  "module_LoadPlugins h s =
     (case (if usage s = 1 then AllocateAllPlugins h (module_InitStaticModules h s)
            else Inr s) of
        Inl f \<Rightarrow> Inl f
      | Inr s1 \<Rightarrow>
          (case module_list_get h s1 of
             Inl f \<Rightarrow> Inl f
           | Inr ((tab, count), s2) \<Rightarrow> Inr (count, s2)))"

text \<open>
  \<^verbatim>\<open>modulecmp\<close>: the difference of two C \<^verbatim>\<open>int\<close>s, computed in 32 bits.
\<close>

definition modulecmp :: "module_t \<Rightarrow> module_t \<Rightarrow> 32 word" where
  "modulecmp a b = i_score b - i_score a"

text \<open>
  The C library's \<^verbatim>\<open>qsort\<close> is not part of the repository. It is modelled as an insertion
  sort that places an element before the first one the comparator does not rank below it
  (result \<open>\<le> 0\<close>, read as a signed \<^verbatim>\<open>int\<close>). For a comparator that is a total order
  every sorting algorithm gives an order that agrees with it; where the comparator is
  inconsistent (its difference overflows) the order of three or more elements depends on
  the library's algorithm, and only what holds for every algorithm is concluded: the
  order of two elements, which one comparison decides.
\<close>

fun qsort_insert :: "('a \<Rightarrow> 'a \<Rightarrow> 32 word) \<Rightarrow> 'a \<Rightarrow> 'a list \<Rightarrow> 'a list" where
  "qsort_insert cmp x [] = [x]"
| "qsort_insert cmp x (y # ys) =
     (if sint (cmp x y) \<le> 0 then x # y # ys else y # qsort_insert cmp x ys)"

fun qsort :: "('a \<Rightarrow> 'a \<Rightarrow> 32 word) \<Rightarrow> 'a list \<Rightarrow> 'a list" where
  "qsort cmp [] = []"
| "qsort cmp (x # xs) = qsort_insert cmp x (qsort cmp xs)"

text \<open>The two passes of \<^verbatim>\<open>module_list_cap\<close> over the bank: counting and filling.\<close>

fun module_list_cap_count :: "host \<Rightarrow> string \<Rightarrow> vlc_plugin list \<Rightarrow> int \<Rightarrow> int" where
  "module_list_cap_count h cap [] n = n"
| "module_list_cap_count h cap (lib # rest) n =
     module_list_cap_count h cap rest
       (n + (if module_provides h (module lib) cap then 1 else 0)
          + int (length (filter (\<lambda>subm. module_provides h subm cap)
                           (submodule (module lib)))))"

fun module_list_cap_fill ::
    "host \<Rightarrow> string \<Rightarrow> vlc_plugin list \<Rightarrow> module_t list \<Rightarrow> module_t list" where
  "module_list_cap_fill h cap [] tab = tab"
| "module_list_cap_fill h cap (lib # rest) tab =
     module_list_cap_fill h cap rest
       (tab @ (if module_provides h (module lib) cap then [module lib] else [])
            @ filter (\<lambda>subm. module_provides h subm cap) (submodule (module lib)))"

text \<open>
  \<^verbatim>\<open>module_list_cap\<close>: the pair is the return value and the table stored in \<^verbatim>\<open>*list\<close>.
\<close>

definition module_list_cap ::
    "host \<Rightarrow> string \<Rightarrow> state \<Rightarrow> fault + (int \<times> module_t list option) \<times> state" where
  "module_list_cap h cap s =
     (let n = module_list_cap_count h cap (libs s) 0 in
      case alloc h s of
        (False, s1) \<Rightarrow> Inr ((- 1, None), s1)
      | (True, s1) \<Rightarrow>
          (let tab = module_list_cap_fill h cap (libs s) [] in
           if int (length tab) \<noteq> n then Inl AssertFailed
           else Inr ((n, Some (qsort modulecmp tab)), s1)))"

subsection \<open>Mapping a cached plug-in\<close>

text \<open>
  Modelled from the spec: \<^verbatim>\<open>CacheMerge\<close> (cache.c is absent) moves what only the loaded
  image has, here the handle, into the cached module and marks it loaded.
\<close>

definition CacheMerge :: "module_t \<Rightarrow> module_t \<Rightarrow> module_t" where
  "CacheMerge cached fresh = set_b_loaded True (set_handle (handle fresh) cached)"

text \<open>
  \<^verbatim>\<open>module_Map\<close>. The function first goes from its argument to the descriptor
  (\<^verbatim>\<open>module->plugin\<close>) and on to the primary module; the model is handed the descriptor.
  It returns the return value and the descriptor as the call leaves it.
\<close>

definition module_Map :: "host \<Rightarrow> vlc_plugin \<Rightarrow> state \<Rightarrow> fault + (int \<times> vlc_plugin) \<times> state" where
  "module_Map h plugin s =
     (if \<not> b_loaded (module plugin) then
        (case psz_filename (module plugin) of
           None \<Rightarrow> Inl AssertFailed
         | Some filename \<Rightarrow>
             (case module_InitDynamic h filename False s of
                (Some uncache, s1) \<Rightarrow>
                  Inr ((0, plugin\<lparr>module := CacheMerge (module plugin) (module uncache)\<rparr>),
                       emit (PluginDestroy uncache) s1)
              | (None, s1) \<Rightarrow> Inr ((- 1, plugin), s1)))
      else Inr ((0, plugin), s))"

subsection \<open>Sequences of life-cycle calls\<close>

text \<open>
  The bank proper is the content of the static \<^verbatim>\<open>modules\<close> structure. Its invariant, as
  the data model states it: the use count is zero exactly when no descriptor and no cache
  block is held.
\<close>

definition bank_of :: "state \<Rightarrow> vlc_plugin list \<times> block list \<times> 32 word" where
  "bank_of s = (libs s, caches s, usage s)"

definition bank_inv :: "state \<Rightarrow> bool" where
  "bank_inv s = ((usage s = 0) = (libs s = [] \<and> caches s = []))"

text \<open>
  A client either initialises the bank and loads the plug-ins (\<^verbatim>\<open>module_InitBank\<close> followed
  by \<^verbatim>\<open>module_LoadPlugins\<close>, as the locking contract demands) or ends its use of the bank.
  \<open>matched k ops\<close>: every end in \<open>ops\<close> closes an initialisation of \<open>ops\<close> or one of \<open>k\<close>
  that are still open, and none stays open.
\<close>

datatype bank_op = InitLoad | End bool

fun run_op :: "host \<Rightarrow> bank_op \<Rightarrow> state \<Rightarrow> fault + state" where
  "run_op h InitLoad s =
     (case module_InitBank h s of
        Inl f \<Rightarrow> Inl f
      | Inr s1 \<Rightarrow>
          (case module_LoadPlugins h s1 of
             Inl f \<Rightarrow> Inl f
           | Inr (n, s2) \<Rightarrow> Inr s2))"
| "run_op h (End b_plugins) s = module_EndBank b_plugins s"

fun run :: "host \<Rightarrow> bank_op list \<Rightarrow> state \<Rightarrow> fault + state" where
  "run h [] s = Inr s"
| "run h (x # xs) s = (case run_op h x s of Inl f \<Rightarrow> Inl f | Inr s1 \<Rightarrow> run h xs s1)"

fun matched :: "nat \<Rightarrow> bank_op list \<Rightarrow> bool" where
  "matched k [] = (k = 0)"
| "matched k (InitLoad # xs) = matched (Suc k) xs"
| "matched k (End b # xs) = (0 < k \<and> matched (k - 1) xs)"

subsection \<open>Paths below a directory\<close>

text \<open>
  The relative path of an entry and the absolute path of a relative directory, as the walk
  composes them (\<open>None\<close> is the search root itself).
\<close>

definition rel_join :: "host \<Rightarrow> string option \<Rightarrow> string \<Rightarrow> string" where
  "rel_join h reldir file = (case reldir of None \<Rightarrow> file | Some d \<Rightarrow> d @ DIR_SEP h @ file)"

definition abs_of :: "host \<Rightarrow> string \<Rightarrow> string option \<Rightarrow> string" where
  "abs_of h root reldir = (case reldir of None \<Rightarrow> root | Some d \<Rightarrow> root @ DIR_SEP h @ d)"

text \<open>
  Depth is counted in directory entries. \<open>entry_of\<close>: the name is one that \<^verbatim>\<open>vlc_readdir\<close>
  yields in the directory. \<open>walk_to\<close>: the relative directory reached from \<open>reldir\<close> by going
  down through the names \<open>comps\<close>, one directory per name. \<open>descends\<close>: each of these names
  is an entry of the directory reached before it, other than \<^verbatim>\<open>.\<close> and \<^verbatim>\<open>..\<close>, that
  \<^verbatim>\<open>vlc_stat\<close> reports as a directory. The length of \<open>comps\<close> is the number of nested
  subdirectories.
\<close>

definition entry_of :: "host \<Rightarrow> string \<Rightarrow> string option \<Rightarrow> string \<Rightarrow> bool" where
  "entry_of h root reldir name =
     (case vlc_opendir h (abs_of h root reldir) of
        None \<Rightarrow> False
      | Some files \<Rightarrow> name \<in> set files)"

definition is_dir :: "host \<Rightarrow> string \<Rightarrow> bool" where
  "is_dir h p = (case vlc_stat h p of None \<Rightarrow> False | Some st \<Rightarrow> st_mode st = S_IFDIR)"

fun walk_to :: "host \<Rightarrow> string option \<Rightarrow> string list \<Rightarrow> string option" where
  "walk_to h reldir [] = reldir"
| "walk_to h reldir (c # cs) = walk_to h (Some (rel_join h reldir c)) cs"

fun descends :: "host \<Rightarrow> string \<Rightarrow> string option \<Rightarrow> string list \<Rightarrow> bool" where
  "descends h root reldir [] = True"
| "descends h root reldir (c # cs) =
     (c \<noteq> ''.'' \<and> c \<noteq> ''..''
      \<and> entry_of h root reldir c
      \<and> is_dir h (abs_of h root (Some (rel_join h reldir c)))
      \<and> descends h root (Some (rel_join h reldir c)) cs)"

subsection \<open>Concrete hosts and banks\<close>

definition mk_module :: "string \<Rightarrow> 32 word \<Rightarrow> module_t" where
  "mk_module cap score = Module cap score False True None 0 [] [] 0"

definition mk_plugin :: "module_t \<Rightarrow> vlc_plugin" where
  "mk_plugin m = \<lparr>module = m, path = None, mtime = 0, size_p = 0\<rparr>"

definition core_plugin :: vlc_plugin where
  "core_plugin = mk_plugin (mk_module ''core'' 0)"

definition plugin_Z :: vlc_plugin where
  "plugin_Z = mk_plugin (mk_module ''z'' 10)"

definition state0 :: state where
  "state0 = \<lparr>libs = [], caches = [], usage = 0, trace = [], allocs = 0\<rparr>"

definition reg_stat :: stat where
  "reg_stat = \<lparr>st_mode = S_IFREG, st_mtime = 1000, st_size = 4096\<rparr>"

definition dir_stat :: stat where
  "dir_stat = \<lparr>st_mode = S_IFDIR, st_mtime = 1000, st_size = 0\<rparr>"

text \<open>
  A host with an empty world: the core describes itself (entry 1), nothing can be loaded,
  no directory can be opened, memory never runs out, the cache is switched off.
\<close>

definition host0 :: host where
  "host0 = \<lparr>
     vlc_plugin_describe = (\<lambda>e. if e = 1 then Some core_plugin
                                else if e = 2 then Some plugin_Z else None),
     module_Load = (\<lambda>p fast. None),
     module_Lookup = (\<lambda>hdl name. if hdl = 7 \<and> name = ''vlc_entry__3_0_0a'' then Some 2
                                  else None),
     vlc_opendir = (\<lambda>d. None),
     vlc_stat = (\<lambda>p. None),
     vlc_cache_load = (\<lambda>p. None),
     module_provides = (\<lambda>m cap. psz_capability m = cap),
     out_of_memory = (\<lambda>k. False),
     vlc_entry_core = 1,
     vlc_static_modules = None,
     plugins_cache = False,
     reset_plugins_cache = False,
     config_GetLibDir = None,
     VLC_PLUGIN_PATH = None,
     LIBEXT = ''.so'',
     DIR_SEP = ''/'',
     PATH_SEP = '':'',
     EXTERN_PREFIX = [],
     MODULE_SUFFIX = ''__3_0_0a''\<rparr>"

text \<open>
  The search root \<^verbatim>\<open>r\<close> with \<open>n\<close> nested subdirectories \<^verbatim>\<open>d\<close> and the plug-in
  \<^verbatim>\<open>libZ_plugin.so\<close> in the innermost one; the file loads (handle 7) and describes itself
  as \<open>plugin_Z\<close>.
\<close>

fun chain_dir :: "nat \<Rightarrow> string" where
  "chain_dir 0 = ''r''"
| "chain_dir (Suc n) = chain_dir n @ ''/d''"

definition chain_file :: "nat \<Rightarrow> string" where
  "chain_file n = chain_dir n @ ''/libZ_plugin.so''"

definition chain_host :: "nat \<Rightarrow> host" where
  "chain_host n = host0\<lparr>
     vlc_opendir := (\<lambda>p. if p = chain_dir n then Some [''.'', ''..'', ''libZ_plugin.so'']
                          else if p \<in> set (map chain_dir [0..<n]) then Some [''.'', ''..'', ''d'']
                          else None),
     vlc_stat := (\<lambda>p. if p = chain_file n then Some reg_stat
                       else if p \<in> set (map chain_dir [1..<Suc n]) then Some dir_stat
                       else None),
     module_Load := (\<lambda>p fast. if p = chain_file n then Some 7 else None)\<rparr>"

text \<open>The descriptor that loading \<open>chain_file n\<close> with \<^verbatim>\<open>fast = true\<close> puts into the bank.\<close>

definition chain_found :: "nat \<Rightarrow> vlc_plugin" where
  "chain_found n =
     \<lparr>module = Module ''z'' 10 True True (Some (chain_file n)) 7 [] [] 0,
      path = Some (drop 2 (chain_file n)), mtime = 1000, size_p = 4096\<rparr>"

text \<open>A directory that contains itself: every path is a directory with the entry \<^verbatim>\<open>loop\<close>.\<close>

definition loop_host :: host where
  "loop_host = host0\<lparr>
     vlc_opendir := (\<lambda>p. Some [''.'', ''loop'']),
     vlc_stat := (\<lambda>p. Some dir_stat)\<rparr>"

text \<open>A host on which the file \<^verbatim>\<open>r/libZ_plugin.so\<close> loads: \<open>chain_host 0\<close>.\<close>

definition bank_of_mode :: "cache_mode \<Rightarrow> module_bank" where
  "bank_of_mode md = \<lparr>base = ''r'', mode = md, plugins = [], cache = []\<rparr>"



text \<open>Two plug-ins for capability \<^verbatim>\<open>x\<close>; one of them has a submodule.\<close>

definition plugin_A :: vlc_plugin where
  "plugin_A = mk_plugin (Module ''x'' 50 True True (Some ''r/libA_plugin.so'') 8 []
                           [mk_module ''y'' 20] 1)"

definition plugin_B :: vlc_plugin where
  "plugin_B = mk_plugin (Module ''x'' 80 True True (Some ''r/libB_plugin.so'') 9 [] [] 0)"

text \<open>Two plug-ins whose scores are \<^verbatim>\<open>INT_MAX\<close> and -2.\<close>

definition plugin_max :: vlc_plugin where
  "plugin_max = mk_plugin (mk_module ''x'' 2147483647)"

definition plugin_neg :: vlc_plugin where
  "plugin_neg = mk_plugin (mk_module ''x'' (- 2))"

text \<open>A cached descriptor of \<^verbatim>\<open>r/libZ_plugin.so\<close> without callbacks, not yet mapped.\<close>

definition unmapped_Z :: vlc_plugin where
  "unmapped_Z =
     \<lparr>module = Module ''z'' 10 False True (Some ''r/libZ_plugin.so'') 0 [] [] 0,
      path = Some ''libZ_plugin.so'', mtime = 1000, size_p = 4096\<rparr>"

subsection \<open>Counting calls of the dynamic linker\<close>

fun is_load :: "event \<Rightarrow> bool" where
  "is_load (DlLoad p fast) = True"
| "is_load e = False"

definition load_count :: "state \<Rightarrow> nat" where
  "load_count s = length (filter is_load (trace s))"

subsection \<open>What a run leaves behind\<close>

text \<open>
  The descriptors destroyed and the cache blocks released by a stretch of the trace.
\<close>

fun destroyed :: "event list \<Rightarrow> vlc_plugin list" where
  "destroyed [] = []"
| "destroyed (PluginDestroy p # es) = p # destroyed es"
| "destroyed (e # es) = destroyed es"

fun released :: "event list \<Rightarrow> block list" where
  "released [] = []"
| "released (BlockRelease b # es) = b # released es"
| "released (e # es) = released es"

text \<open>
  \<open>grows s s'\<close>: from \<open>s\<close> to \<open>s'\<close> the use count is unchanged and descriptors and cache
  blocks were only put in front of the lists. \<open>keeps\<close> adds that the scanned root stays.
\<close>

definition grows :: "state \<Rightarrow> state \<Rightarrow> bool" where
  "grows s s' = (usage s' = usage s \<and> (\<exists>new. libs s' = new @ libs s)
                 \<and> (\<exists>bl. caches s' = bl @ caches s))"

definition keeps :: "module_bank \<times> state \<Rightarrow> module_bank \<times> state \<Rightarrow> bool" where
  "keeps bs bs' = (base (fst bs') = base (fst bs) \<and> grows (snd bs) (snd bs'))"

text \<open>
  \<open>scans_within h root reldir k s s'\<close>: from \<open>s\<close> to \<open>s'\<close> the trace was extended; each
  directory opened meanwhile is reached from \<open>reldir\<close> by going down at most \<open>k\<close>
  subdirectories; and each file handed to the dynamic linker meanwhile is an entry with a
  plug-in name of such a directory.
\<close>

definition scans_within ::
    "host \<Rightarrow> string \<Rightarrow> string option \<Rightarrow> nat \<Rightarrow> state \<Rightarrow> state \<Rightarrow> bool" where
  "scans_within h root reldir k s s' =
     (\<exists>evs. trace s' = trace s @ evs
        \<and> (\<forall>p. Opendir p \<in> set evs \<longrightarrow>
              (\<exists>comps. length comps \<le> k \<and> descends h root reldir comps
                    \<and> p = abs_of h root (walk_to h reldir comps)))
        \<and> (\<forall>p fast. DlLoad p fast \<in> set evs \<longrightarrow>
              (\<exists>comps name. length comps \<le> k \<and> descends h root reldir comps
                    \<and> entry_of h root (walk_to h reldir comps) name
                    \<and> is_plugin_name h name
                    \<and> p = abs_of h root (Some (rel_join h (walk_to h reldir comps) name)))))"


subsection \<open>The flat list of modules\<close>

text \<open>
  What the enumeration is expected to yield: for each descriptor its primary module
  followed by its submodules, and the count that \<^verbatim>\<open>submodule_count\<close> announces. A
  descriptor is well formed when \<^verbatim>\<open>submodule_count\<close> is the length of the submodule chain,
  as the data model demands.
\<close>

definition total_modules :: "vlc_plugin list \<Rightarrow> nat" where
  "total_modules ls = sum_list (map (\<lambda>lib. 1 + submodule_count (module lib)) ls)"

definition flat_modules :: "vlc_plugin list \<Rightarrow> module_t list" where
  "flat_modules ls = concat (map (\<lambda>lib. module lib # submodule (module lib)) ls)"

definition wf_plugin :: "vlc_plugin \<Rightarrow> bool" where
  "wf_plugin lib = (submodule_count (module lib) = length (submodule (module lib)))"

definition table_of :: "module_t list option \<Rightarrow> module_t list" where
  "table_of tab = (case tab of None \<Rightarrow> [] | Some xs \<Rightarrow> xs)"

subsection \<open>More concrete hosts and states\<close>





text \<open>A host whose \<^verbatim>\<open>VLC_PLUGIN_PATH\<close> names the root \<^verbatim>\<open>r\<close>, with the plug-in in \<^verbatim>\<open>r/d\<close>.\<close>

definition scan_host :: host where
  "scan_host = (chain_host 1)\<lparr>VLC_PLUGIN_PATH := Some ''r''\<rparr>"

text \<open>A bank whose use count is \<^verbatim>\<open>UINT_MAX\<close>.\<close>

definition wrapped_state :: state where
  "wrapped_state = state0\<lparr>libs := [core_plugin], usage := - 1\<rparr>"


text \<open>A host on which the second allocation fails, and a bank in use with two plug-ins.\<close>

definition oom_host :: host where
  "oom_host = host0\<lparr>out_of_memory := (\<lambda>k. k = 1)\<rparr>"

definition two_plugins :: state where
  "two_plugins = state0\<lparr>libs := [plugin_A, plugin_B], usage := 2\<rparr>"

text \<open>
  The bank on \<open>scan_host\<close> after one initialisation with loading, and after the end of
  its use.
\<close>

definition loaded_state :: state where
  "loaded_state =
     \<lparr>libs = [chain_found 1, mk_plugin (Module ''core'' 0 True False None 0 [] [] 0)],
      caches = [], usage = 1,
      trace = [Opendir ''r'', Opendir ''r/d'', DlLoad ''r/d/libZ_plugin.so'' True],
      allocs = 9\<rparr>"

definition ended_state :: state where
  "ended_state =
     \<lparr>libs = [], caches = [], usage = 0,
      trace = [Opendir ''r'', Opendir ''r/d'', DlLoad ''r/d/libZ_plugin.so'' True,
               DlUnload 7,
               PluginDestroy ((chain_found 1)\<lparr>module :=
                  Module ''z'' 10 False True (Some ''r/d/libZ_plugin.so'') 7 [] [] 0\<rparr>),
               PluginDestroy (mk_plugin (Module ''core'' 0 True False None 0 [] [] 0))],
      allocs = 9\<rparr>"

subsection \<open>Scores\<close>

text \<open>
  A score whose distance to any other such score fits a C \<^verbatim>\<open>int\<close>; \<open>by_score\<close> is the order
  the capability list is meant to have: highest score first.
\<close>

definition small_score :: "module_t \<Rightarrow> bool" where
  "small_score m = (- (2 ^ 30) \<le> sint (i_score m) \<and> sint (i_score m) < 2 ^ 30)"

definition by_score :: "module_t \<Rightarrow> module_t \<Rightarrow> bool" where
  "by_score a b = (sint (i_score b) \<le> sint (i_score a))"

section \<open>Properties\<close>

subsection \<open>Basic facts about the loader\<close>

lemmas setters = set_b_loaded_def set_b_unloadable_def set_psz_filename_def set_handle_def


lemma module_InitDynamic_trace:
  "module_InitDynamic h pth fast s = (r, s') \<Longrightarrow>
     \<exists>evs. trace s' = trace s @ DlLoad pth fast # evs \<and> filter is_load evs = []"
  by (auto simp: module_InitDynamic_def Let_def alloc_def emit_def
      split: option.splits prod.splits bool.splits if_splits)


subsection \<open>A file that fails to load\<close>

text \<open>
  Whenever the cache gives no descriptor and the dynamic linker rejects the file,
  \<^verbatim>\<open>AllocatePluginFile\<close> does not return: it writes through the null pointer that
  \<^verbatim>\<open>module_InitDynamic\<close> returned (or aborts in \<^verbatim>\<open>xstrdup\<close>).
\<close>

lemma AllocatePluginFile_load_failure:
  assumes "mode bank \<noteq> CACHE_USE \<or> fst (vlc_cache_lookup (cache bank) relpath st) = None"
      and "module_Load h abspath True = None"
  shows "AllocatePluginFile h abspath relpath st (bank, s) = Inl NullDeref
       \<or> AllocatePluginFile h abspath relpath st (bank, s) = Inl Aborted"
  using assms
  by (auto simp add: AllocatePluginFile_def AllocatePluginFile_cached_def
        AllocatePluginFile_load_def module_InitDynamic_def alloc_def emit_def
      split: prod.splits option.splits bool.splits)

text \<open>
  Claim C1. The claim says that a candidate file which the dynamic linker rejects makes
  \<^verbatim>\<open>AllocatePluginFile\<close> return -1 and is skipped. On the code the run ends in a write
  through the null pointer instead: with the cache ignored and a host on which no file
  loads, scanning \<^verbatim>\<open>r/libA_plugin.so\<close> yields the fault \<open>NullDeref\<close>, not a return value.
\<close>

theorem AllocatePluginFile_rejected_file_faults:
  "AllocatePluginFile host0 ''r/libA_plugin.so'' ''libA_plugin.so'' reg_stat
     (bank_of_mode CACHE_IGNORE, state0) = Inl NullDeref"
  by (simp add: AllocatePluginFile_def AllocatePluginFile_cached_def
        AllocatePluginFile_load_def module_InitDynamic_def host0_def bank_of_mode_def
        state0_def alloc_def emit_def)

subsection \<open>The core plug-in\<close>

text \<open>
  Claim C9. On a bank that is not in use (use count 0, hence empty), \<^verbatim>\<open>module_InitBank\<close>
  fails its assertion when the core does not describe itself; otherwise it leaves exactly
  one descriptor in \<open>libs\<close>, the core's, with \<open>b_loaded\<close> set and \<open>b_unloadable\<close> cleared,
  and the use count 1.
\<close>

theorem module_InitBank_first:
  assumes "usage s = 0" and "bank_inv s"
  shows "(vlc_plugin_describe h (vlc_entry_core h) = None \<longrightarrow>
            module_InitBank h s = Inl AssertFailed)
       \<and> (\<forall>core. vlc_plugin_describe h (vlc_entry_core h) = Some core \<longrightarrow>
            (\<exists>s' lib. module_InitBank h s = Inr s' \<and> libs s' = [lib] \<and> usage s' = 1
               \<and> b_loaded (module lib) \<and> \<not> b_unloadable (module lib)
               \<and> lib = core\<lparr>module :=
                          set_b_unloadable False (set_b_loaded True (module core))\<rparr>))"
  using assms
  by (auto simp: module_InitBank_def module_InitStatic_def module_StoreBank_def
        bank_inv_def setters)

theorem module_InitBank_first_witness:
  "usage state0 = 0 \<and> bank_inv state0 \<and>
   module_InitBank host0 state0 =
     Inr (state0\<lparr>libs := [mk_plugin (Module ''core'' 0 True False None 0 [] [] 0)],
                 usage := 1\<rparr>)"
proof -
  have a: "usage state0 = 0" by (simp add: state0_def)
  have b: "bank_inv state0" by (simp add: state0_def bank_inv_def)
  have c: "vlc_plugin_describe host0 (vlc_entry_core host0) = Some core_plugin"
    by (simp add: host0_def)
  from module_InitBank_first [OF a b, of host0] c
  obtain s' lib where "module_InitBank host0 state0 = Inr s'" "libs s' = [lib]" by blast
  then show ?thesis using a b
    by (simp add: module_InitBank_def module_InitStatic_def module_StoreBank_def host0_def
          state0_def core_plugin_def mk_plugin_def mk_module_def setters)
qed

subsection \<open>Mapping twice\<close>

text \<open>
  Claim C8, as stated, fails: two calls of \<^verbatim>\<open>module_Map\<close> on the same module can make
  two calls of the dynamic linker. On a host where the file does not load, the first call
  returns -1 and leaves the module unloaded, and the second call loads again.
\<close>

theorem module_Map_twice_loads_twice:
  "module_Map host0 unmapped_Z state0
     = Inr ((- 1, unmapped_Z), state0\<lparr>trace := [DlLoad ''r/libZ_plugin.so'' False]\<rparr>)
   \<and> module_Map host0 unmapped_Z (state0\<lparr>trace := [DlLoad ''r/libZ_plugin.so'' False]\<rparr>)
     = Inr ((- 1, unmapped_Z),
            state0\<lparr>trace := [DlLoad ''r/libZ_plugin.so'' False,
                              DlLoad ''r/libZ_plugin.so'' False]\<rparr>)
   \<and> load_count (state0\<lparr>trace := [DlLoad ''r/libZ_plugin.so'' False,
                                   DlLoad ''r/libZ_plugin.so'' False]\<rparr>) = 2"
  by (simp add: module_Map_def unmapped_Z_def module_InitDynamic_def host0_def state0_def
        emit_def load_count_def)

text \<open>
  Claim C8, amended. A call on a loaded plug-in makes no dynamic load and returns 0. Every
  call makes at most one dynamic load. After a call that returned 0 the plug-in is loaded,
  so the next call makes no load and returns 0 again. A call that does not return 0
  returns -1, has made one load and leaves the descriptor as it was, not loaded.
\<close>

theorem module_Map_idempotent:
  "(b_loaded (module p) \<longrightarrow> module_Map h p s = Inr ((0, p), s))
 \<and> (\<forall>r p' s'. module_Map h p s = Inr ((r, p'), s') \<longrightarrow>
       load_count s' \<le> load_count s + 1
     \<and> (r = 0 \<longrightarrow> b_loaded (module p') \<and> module_Map h p' s' = Inr ((0, p'), s'))
     \<and> (r \<noteq> 0 \<longrightarrow> r = - 1 \<and> p' = p \<and> \<not> b_loaded (module p')
                  \<and> load_count s' = load_count s + 1))"
  by (auto simp: module_Map_def CacheMerge_def setters load_count_def emit_def
      split: option.splits prod.splits if_splits dest!: module_InitDynamic_trace)

theorem module_Map_idempotent_witness:
  "module_Map (chain_host 0) unmapped_Z state0
     = Inr ((0, unmapped_Z\<lparr>module := Module ''z'' 10 True True (Some ''r/libZ_plugin.so'') 7 [] [] 0\<rparr>),
            state0\<lparr>trace := [DlLoad ''r/libZ_plugin.so'' False,
                              PluginDestroy (mk_plugin (Module ''z'' 10 True True
                                 (Some ''r/libZ_plugin.so'') 7 [] [] 0))],
                    allocs := 1\<rparr>)
   \<and> module_Map (chain_host 0)
       (unmapped_Z\<lparr>module := Module ''z'' 10 True True (Some ''r/libZ_plugin.so'') 7 [] [] 0\<rparr>)
       (state0\<lparr>trace := [DlLoad ''r/libZ_plugin.so'' False,
                         PluginDestroy (mk_plugin (Module ''z'' 10 True True
                            (Some ''r/libZ_plugin.so'') 7 [] [] 0))],
               allocs := 1\<rparr>)
     = Inr ((0, unmapped_Z\<lparr>module := Module ''z'' 10 True True (Some ''r/libZ_plugin.so'') 7 [] [] 0\<rparr>),
            state0\<lparr>trace := [DlLoad ''r/libZ_plugin.so'' False,
                              PluginDestroy (mk_plugin (Module ''z'' 10 True True
                                 (Some ''r/libZ_plugin.so'') 7 [] [] 0))],
                    allocs := 1\<rparr>)"
proof -
  have first: "module_Map (chain_host 0) unmapped_Z state0
     = Inr ((0, unmapped_Z\<lparr>module := Module ''z'' 10 True True (Some ''r/libZ_plugin.so'') 7 [] [] 0\<rparr>),
            state0\<lparr>trace := [DlLoad ''r/libZ_plugin.so'' False,
                              PluginDestroy (mk_plugin (Module ''z'' 10 True True
                                 (Some ''r/libZ_plugin.so'') 7 [] [] 0))],
                    allocs := 1\<rparr>)"
    by (simp add: module_Map_def unmapped_Z_def module_InitDynamic_def chain_host_def
          chain_file_def host0_def state0_def emit_def alloc_def entry_name_def plugin_Z_def
          mk_plugin_def mk_module_def CacheMerge_def setters)
  with module_Map_idempotent [of unmapped_Z "chain_host 0" state0]
  show ?thesis by simp
qed

subsection \<open>What scanning preserves\<close>

lemma grows_refl [simp]: "grows s s"
  by (simp add: grows_def)

lemma grows_trans: "grows s s1 \<Longrightarrow> grows s1 s2 \<Longrightarrow> grows s s2"
  by (auto simp: grows_def)

lemma grows_emit [simp]: "grows s (emit e s)" "grows (emit e s) s' = grows s s'"
  by (simp_all add: grows_def emit_def)

lemma alloc_grows: "alloc h s = (ok, s') \<Longrightarrow> grows s s'"
  by (auto simp: alloc_def grows_def)

lemma module_InitDynamic_grows:
  "module_InitDynamic h pth fast s = (r, s') \<Longrightarrow> grows s s'"
  by (auto simp: module_InitDynamic_def Let_def alloc_def grows_def emit_def
      split: option.splits prod.splits bool.splits if_splits)

lemma AllocatePluginFile_grows:
  assumes "AllocatePluginFile h a r st (bank, s) = Inr (x, bank', s')"
  shows "base bank' = base bank \<and> grows s s'"
  using assms
  apply (simp add: AllocatePluginFile_def AllocatePluginFile_cached_def
        AllocatePluginFile_load_def AllocatePluginFile_force_def Let_def alloc_def CacheAdd_def
        split: prod.splits option.splits bool.splits sum.splits if_splits)
  apply (auto dest!: module_InitDynamic_grows simp: grows_def module_StoreBank_def emit_def)
  done

lemma keeps_refl [simp]: "keeps bs bs"
  by (simp add: keeps_def)

lemma keeps_trans: "keeps a b \<Longrightarrow> keeps b c \<Longrightarrow> keeps a c"
  by (auto simp: keeps_def intro: grows_trans)

subsection \<open>Reasoning about the walk\<close>

declare AllocatePluginDir.simps [simp del]
declare AllocatePluginDir_entry.simps [simp del]

text \<open>
  Induction along the walk: on the depth for directories, and for each depth on the list
  of entries.
\<close>

lemma walk_induct:
  assumes dir0: "\<And>absdir reldir bs. P 0 absdir reldir bs"
      and dirS: "\<And>d absdir reldir bs.
                   (\<And>r files bs'. Q d r files bs') \<Longrightarrow> P (Suc d) absdir reldir bs"
      and entry: "\<And>d reldir fl bs. (\<And>a r bs'. P d a r bs') \<Longrightarrow> E d reldir fl bs"
      and nil: "\<And>d reldir bs. Q d reldir [] bs"
      and cons: "\<And>d reldir fl files bs.
                   E d reldir fl bs \<Longrightarrow> (\<And>bs'. Q d reldir files bs')
                   \<Longrightarrow> Q d reldir (fl # files) bs"
  shows "P d absdir reldir bs \<and> E d reldir1 fl bs1 \<and> Q d reldir2 files bs2"
proof -
  have loop: "Q d r fs b" if p: "\<And>a r b. P d a r b" for d r fs b
  proof (induction fs arbitrary: b)
    case Nil
    show ?case by (rule nil)
  next
    case (Cons f fs)
    have "E d r f b" by (rule entry) (rule p)
    then show ?case by (rule cons) (rule Cons)
  qed
  have "(\<forall>a r b. P d a r b) \<and> (\<forall>r fs b. Q d r fs b)"
  proof (induction d)
    case 0
    then show ?case using dir0 loop by blast
  next
    case (Suc d)
    then have "\<And>a r b. P (Suc d) a r b" using dirS by blast
    then show ?case using loop by blast
  qed
  then show ?thesis using entry by blast
qed

lemma AllocatePluginDir_Suc:
  "AllocatePluginDir h (Suc d) absdir reldir (bank, s) =
     (case vlc_opendir h absdir of
        None \<Rightarrow> Inr (bank, emit (Opendir absdir) s)
      | Some files \<Rightarrow> AllocatePluginDir_loop h d reldir files (bank, emit (Opendir absdir) s))"
  by (cases "vlc_opendir h absdir") (simp_all add: AllocatePluginDir.simps)

lemma AllocatePluginDir_0: "AllocatePluginDir h 0 absdir reldir bs = Inr bs"
  by (cases bs) (simp add: AllocatePluginDir.simps)

text \<open>
  An entry that is dealt with without a fault was skipped, or was a regular file handed to
  \<^verbatim>\<open>AllocatePluginFile\<close>, or was a directory that was walked.
\<close>

lemma entry_cases:
  assumes "AllocatePluginDir_entry h d reldir fl (bank, s) = Inr bs'"
  obtains (skip) n where "bs' = (bank, s\<lparr>allocs := n\<rparr>)"
    | (regular) st x where
        "AllocatePluginFile h (base bank @ DIR_SEP h @ rel_join h reldir fl)
           (rel_join h reldir fl) st (bank, s\<lparr>allocs := Suc (Suc (allocs s))\<rparr>) = Inr (x, bs')"
    | (directory)
        "AllocatePluginDir h d (base bank @ DIR_SEP h @ rel_join h reldir fl)
           (Some (rel_join h reldir fl)) (bank, s\<lparr>allocs := Suc (Suc (allocs s))\<rparr>) = Inr bs'"
proof -
  have id: "(bank, s) = (bank, s\<lparr>allocs := allocs s\<rparr>)" by simp
  from assms show ?thesis
    unfolding AllocatePluginDir_entry.simps rel_join_def [symmetric]
    apply (simp add: Let_def alloc_def
        split: if_splits option.splits sum.splits prod.splits bool.splits)
    using id skip regular directory apply blast+
    done
qed

lemma walk_keeps_all:
  "(\<forall>bs'. AllocatePluginDir h d absdir reldir bs = Inr bs' \<longrightarrow> keeps bs bs')
 \<and> (\<forall>bs'. AllocatePluginDir_entry h d reldir1 fl bs1 = Inr bs' \<longrightarrow> keeps bs1 bs')
 \<and> (\<forall>bs'. AllocatePluginDir_loop h d reldir2 files bs2 = Inr bs' \<longrightarrow> keeps bs2 bs')"
proof (rule walk_induct
    [where P = "\<lambda>d absdir reldir bs.
                  \<forall>bs'. AllocatePluginDir h d absdir reldir bs = Inr bs' \<longrightarrow> keeps bs bs'"
       and E = "\<lambda>d reldir fl bs.
                  \<forall>bs'. AllocatePluginDir_entry h d reldir fl bs = Inr bs' \<longrightarrow> keeps bs bs'"
       and Q = "\<lambda>d reldir files bs.
                  \<forall>bs'. AllocatePluginDir_loop h d reldir files bs = Inr bs' \<longrightarrow> keeps bs bs'"],
    goal_cases)
  case (1 absdir reldir bs)
  then show ?case by (simp add: AllocatePluginDir_0)
next
  case (2 d absdir reldir bs)
  obtain bank s where bs: "bs = (bank, s)" by (cases bs)
  have e: "keeps (bank, s) (bank, emit (Opendir absdir) s)" by (simp add: keeps_def)
  show ?case unfolding bs
    by (auto simp: AllocatePluginDir_Suc split: option.splits
        intro: e keeps_trans [OF e] dest!: 2 [rule_format])
next
  case (3 d reldir fl bs)
  obtain bank s where bs: "bs = (bank, s)" by (cases bs)
  show ?case unfolding bs
  proof (intro allI impI)
    fix bs'
    assume r: "AllocatePluginDir_entry h d reldir fl (bank, s) = Inr bs'"
    let ?s2 = "s\<lparr>allocs := Suc (Suc (allocs s))\<rparr>"
    have s2: "keeps (bank, s) (bank, ?s2)" by (simp add: keeps_def grows_def)
    from r show "keeps (bank, s) bs'"
    proof (cases rule: entry_cases)
      case (skip n)
      then show ?thesis by (simp add: keeps_def grows_def)
    next
      case (regular st x)
      then have "keeps (bank, ?s2) bs'"
        by (cases bs') (auto simp: keeps_def dest: AllocatePluginFile_grows)
      with s2 show ?thesis by (rule keeps_trans)
    next
      case directory
      from 3 [rule_format, OF this] s2 show ?thesis by (blast intro: keeps_trans)
    qed
  qed
next
  case (4 d reldir bs)
  then show ?case by simp
next
  case (5 d reldir fl files bs)
  then show ?case
    by (auto split: sum.splits intro: keeps_trans)
qed

lemma walk_grows:
  "AllocatePluginDir h d absdir reldir (bank, s) = Inr (bank', s') \<Longrightarrow> grows s s'"
  using walk_keeps_all [of h d absdir reldir "(bank, s)"] by (auto simp: keeps_def)

lemma discard_cache_grows: "grows s (discard_cache ps s)"
proof (induction ps arbitrary: s)
  case Nil
  show ?case by simp
next
  case (Cons p ps)
  have "grows (emit (PluginDestroy p) s) (discard_cache ps (emit (PluginDestroy p) s))"
    by (rule Cons.IH)
  then show ?case by simp
qed

lemma AllocatePluginPath_grows:
  assumes "AllocatePluginPath h pth md s = Inr s'"
  shows "grows s s'"
proof -
  have blob: "grows s (s\<lparr>caches := b # caches s\<rparr>)" for b
    by (simp add: grows_def)
  from assms show ?thesis
    apply (simp add: AllocatePluginPath_def Let_def
        split: sum.splits prod.splits if_splits option.splits)
    apply (auto dest!: walk_grows intro: grows_trans [OF _ discard_cache_grows]
         grows_trans [OF blob] grows_trans [OF grows_trans [OF blob] discard_cache_grows]
       grows_trans [OF _ grows_trans [OF discard_cache_grows grows_emit(1)]]
       grows_trans [OF grows_trans [OF blob] grows_trans [OF discard_cache_grows grows_emit(1)]])
    done
qed

lemma AllocatePluginPath_each_grows:
  "AllocatePluginPath_each h md pths s = Inr s' \<Longrightarrow> grows s s'"
  by (induction pths arbitrary: s)
     (auto split: sum.splits dest!: AllocatePluginPath_grows intro: grows_trans)

lemma AllocateAllPlugins_grows:
  assumes "AllocateAllPlugins h s = Inr s'"
  shows "grows s s'"
  using assms
  apply (simp add: AllocateAllPlugins_def Let_def
      split: sum.splits prod.splits option.splits bool.splits)
  apply (auto dest!: AllocatePluginPath_grows AllocatePluginPath_each_grows alloc_grows
      intro: grows_trans)
  done

lemma static_loop_grows: "grows s (static_loop h es s)"
proof (induction es arbitrary: s)
  case Nil
  show ?case by simp
next
  case (Cons e es)
  have "grows s (module_StoreBank lib s)" for lib
    by (simp add: grows_def module_StoreBank_def)
  then show ?case using Cons.IH
    by (auto split: option.splits intro: grows_trans)
qed

lemma module_InitStaticModules_grows: "grows s (module_InitStaticModules h s)"
  by (simp add: module_InitStaticModules_def static_loop_grows split: option.splits)

lemma module_list_get_loop_bank:
  "module_list_get_loop h ls tab s = Inr (r, s') \<Longrightarrow> bank_of s' = bank_of s"
  by (induction ls arbitrary: tab s)
     (auto simp: alloc_def bank_of_def split: prod.splits bool.splits if_splits)

lemma module_LoadPlugins_grows:
  assumes "module_LoadPlugins h s = Inr (n, s')"
  shows "grows s s' \<and> (usage s \<noteq> 1 \<longrightarrow> bank_of s' = bank_of s)"
proof -
  from assms obtain s1 r where
    scan: "(if usage s = 1 then AllocateAllPlugins h (module_InitStaticModules h s)
            else Inr s) = Inr s1"
    and get: "module_list_get h s1 = Inr (r, s')"
    by (auto simp: module_LoadPlugins_def split: sum.splits prod.splits)
  from get have b: "bank_of s' = bank_of s1"
    by (simp add: module_list_get_def module_list_get_loop_bank)
  then have g1: "grows s1 s'" by (simp add: bank_of_def grows_def)
  have g0: "grows s s1"
    using scan module_InitStaticModules_grows [of s h]
    by (auto split: if_splits dest!: AllocateAllPlugins_grows intro: grows_trans)
  from scan b have "usage s \<noteq> 1 \<longrightarrow> bank_of s' = bank_of s" by (auto split: if_splits)
  with g0 g1 show ?thesis by (blast intro: grows_trans)
qed

subsection \<open>The reference count\<close>

lemma unat_usage_inc:
  fixes u :: "32 word"
  assumes "unat u + 1 < 2 ^ 32"
  shows "unat (u + 1) = unat u + 1"
proof -
  have "unat u + unat (1 :: 32 word) < 2 ^ LENGTH(32)" using assms by simp
  then have "unat (u + 1) = unat u + unat (1 :: 32 word)" by (simp only: unat_add_lem)
  then show ?thesis by simp
qed

lemma unat_usage_dec:
  fixes u :: "32 word"
  assumes "u \<noteq> 0"
  shows "unat (u - 1) = unat u - 1"
  using assms by (simp add: unat_minus_one)

lemma InitBank_effect:
  assumes "module_InitBank h t = Inr ta"
  shows "usage ta = usage t + 1 \<and> caches ta = caches t
       \<and> (usage t \<noteq> 0 \<longrightarrow> libs ta = libs t)
       \<and> (usage t = 0 \<longrightarrow> (\<exists>p. libs ta = p # libs t))"
  using assms
  by (auto simp: module_InitBank_def module_StoreBank_def split: if_splits option.splits)

lemma destroyed_append: "destroyed (xs @ ys) = destroyed xs @ destroyed ys"
  by (induction xs rule: destroyed.induct) auto

lemma released_append: "released (xs @ ys) = released xs @ released ys"
  by (induction xs rule: released.induct) auto

lemma EndBank_release_effect:
  "bank_of (EndBank_release ls s) = bank_of s
 \<and> (\<exists>evs. trace (EndBank_release ls s) = trace s @ evs
        \<and> length (destroyed evs) = length ls \<and> released evs = [])"
proof (induction ls arbitrary: s)
  case Nil
  show ?case by simp
next
  case (Cons lib ls)
  show ?case
  proof (cases "b_loaded (module lib) \<and> b_unloadable (module lib)")
    case True
    let ?s1 = "emit (PluginDestroy (lib\<lparr>module := set_b_loaded False (module lib)\<rparr>))
                 (emit (DlUnload (handle (module lib))) s)"
    have step: "EndBank_release (lib # ls) s = EndBank_release ls ?s1"
      using True by simp
    from Cons.IH [of ?s1] obtain evs where
      "bank_of (EndBank_release ls ?s1) = bank_of ?s1"
      "trace (EndBank_release ls ?s1) = trace ?s1 @ evs"
      "length (destroyed evs) = length ls" "released evs = []" by blast
    then show ?thesis unfolding step
      by (simp add: emit_def bank_of_def destroyed_append released_append)
  next
    case False
    let ?s1 = "emit (PluginDestroy lib) s"
    have step: "EndBank_release (lib # ls) s = EndBank_release ls ?s1"
      using False by (simp only: EndBank_release.simps if_False)
    from Cons.IH [of ?s1] obtain evs where
      "bank_of (EndBank_release ls ?s1) = bank_of ?s1"
      "trace (EndBank_release ls ?s1) = trace ?s1 @ evs"
      "length (destroyed evs) = length ls" "released evs = []" by blast
    then show ?thesis unfolding step
      by (simp add: emit_def bank_of_def destroyed_append released_append)
  qed
qed

lemma block_ChainRelease_effect:
  "bank_of (block_ChainRelease bs s) = bank_of s
 \<and> (\<exists>evs. trace (block_ChainRelease bs s) = trace s @ evs
        \<and> destroyed evs = [] \<and> released evs = bs)"
proof (induction bs arbitrary: s)
  case Nil
  show ?case by simp
next
  case (Cons b bs)
  let ?s1 = "emit (BlockRelease b) s"
  from Cons.IH [of ?s1] obtain evs where
    "bank_of (block_ChainRelease bs ?s1) = bank_of ?s1"
    "trace (block_ChainRelease bs ?s1) = trace ?s1 @ evs"
    "destroyed evs = []" "released evs = bs" by blast
  then show ?case
    by (simp add: emit_def bank_of_def destroyed_append released_append)
qed

lemma EndBank_effect:
  assumes "module_EndBank b t = Inr t1"
  shows "usage t \<noteq> 0 \<and> usage t1 = usage t - 1
       \<and> (usage t \<noteq> 1 \<longrightarrow> libs t1 = libs t \<and> caches t1 = caches t \<and> trace t1 = trace t)
       \<and> (usage t = 1 \<longrightarrow> libs t1 = [] \<and> caches t1 = []
             \<and> (\<exists>evs. trace t1 = trace t @ evs
                   \<and> length (destroyed evs) = length (libs t) \<and> released evs = caches t))"
proof (cases "usage t = 1")
  case True
  let ?s1 = "t\<lparr>usage := 0, libs := [], caches := []\<rparr>"
  let ?s2 = "EndBank_release (libs t) ?s1"
  from True assms have t1: "t1 = block_ChainRelease (caches t) ?s2"
    by (simp add: module_EndBank_def)
  from EndBank_release_effect [of "libs t" ?s1] obtain e1 where
    a: "bank_of ?s2 = bank_of ?s1" "trace ?s2 = trace ?s1 @ e1"
       "length (destroyed e1) = length (libs t)" "released e1 = []" by blast
  from block_ChainRelease_effect [of "caches t" ?s2] obtain e2 where
    b: "bank_of t1 = bank_of ?s2" "trace t1 = trace ?s2 @ e2"
       "destroyed e2 = []" "released e2 = caches t" unfolding t1 by blast
  have "trace t1 = trace t @ (e1 @ e2)" using a(2) b(2) by simp
  moreover have "length (destroyed (e1 @ e2)) = length (libs t)"
    using a(3) b(3) by (simp add: destroyed_append)
  moreover have "released (e1 @ e2) = caches t"
    using a(4) b(4) by (simp add: released_append)
  ultimately have "\<exists>evs. trace t1 = trace t @ evs
        \<and> length (destroyed evs) = length (libs t) \<and> released evs = caches t" by blast
  moreover from a(1) b(1) have "libs t1 = [] \<and> caches t1 = [] \<and> usage t1 = 0"
    by (simp add: bank_of_def)
  ultimately show ?thesis using True by simp
next
  case False
  with assms show ?thesis
    by (auto simp: module_EndBank_def Let_def split: if_splits)
qed

lemma run_matched:
  assumes inv: "bank_inv s0"
  shows "matched k ops \<Longrightarrow> unat (usage s0) + k + length ops < 2 ^ 32
       \<Longrightarrow> unat (usage t) = unat (usage s0) + k
       \<Longrightarrow> (usage s0 \<noteq> 0 \<or> k = 0 \<longrightarrow> libs t = libs s0 \<and> caches t = caches s0)
       \<Longrightarrow> run h ops t = Inr s' \<Longrightarrow> bank_of s' = bank_of s0"
proof (induction ops arbitrary: k t)
  case Nil
  then have "k = 0" by simp
  with Nil have "unat (usage t) = unat (usage s0)" "libs t = libs s0" "caches t = caches s0"
    "s' = t" by auto
  then show ?case by (simp add: bank_of_def word_unat_eq_iff)
next
  case (Cons x xs)
  show ?case
  proof (cases x)
    case InitLoad
    with Cons.prems obtain ta n t1 where
      ib: "module_InitBank h t = Inr ta" and lp: "module_LoadPlugins h ta = Inr (n, t1)"
      and rest: "run h xs t1 = Inr s'"
      by (auto split: sum.splits prod.splits)
    from InitBank_effect [OF ib] have ta: "usage ta = usage t + 1" "caches ta = caches t"
      "usage t \<noteq> 0 \<longrightarrow> libs ta = libs t" by auto
    from module_LoadPlugins_grows [OF lp] have g: "grows ta t1"
      and same: "usage ta \<noteq> 1 \<longrightarrow> bank_of t1 = bank_of ta" by auto
    have bound: "unat (usage t) + 1 < 2 ^ 32" using Cons.prems(2,3) by simp
    have u1: "unat (usage t1) = unat (usage s0) + Suc k"
      using g ta(1) unat_usage_inc [OF bound] Cons.prems(3) by (simp add: grows_def)
    have keep: "usage s0 \<noteq> 0 \<or> Suc k = 0 \<longrightarrow> libs t1 = libs s0 \<and> caches t1 = caches s0"
    proof
      assume "usage s0 \<noteq> 0 \<or> Suc k = 0"
      then have s0: "usage s0 \<noteq> 0" by simp
      then have "unat (usage s0) \<noteq> 0" by (simp add: unat_eq_zero)
      with Cons.prems(3) have tn: "usage t \<noteq> 0" by (metis add_is_0 unat_eq_zero)
      then have "usage ta \<noteq> 1" using ta(1) by simp
      with same have "bank_of t1 = bank_of ta" by simp
      with ta tn Cons.prems(4) s0 show "libs t1 = libs s0 \<and> caches t1 = caches s0"
        by (simp add: bank_of_def)
    qed
    have m: "matched (Suc k) xs" using Cons.prems(1) InitLoad by simp
    have b: "unat (usage s0) + Suc k + length xs < 2 ^ 32" using Cons.prems(2) by simp
    from Cons.IH [OF m b u1 keep rest] show ?thesis .
  next
    case (End b)
    with Cons.prems obtain t1 where
      eb: "module_EndBank b t = Inr t1" and rest: "run h xs t1 = Inr s'"
      by (auto split: sum.splits)
    from Cons.prems(1) End have k: "0 < k" and m: "matched (k - 1) xs" by auto
    from EndBank_effect [OF eb] have tn: "usage t \<noteq> 0" and t1: "usage t1 = usage t - 1"
      and keep1: "usage t \<noteq> 1 \<longrightarrow> libs t1 = libs t \<and> caches t1 = caches t"
      and empt: "usage t = 1 \<longrightarrow> libs t1 = [] \<and> caches t1 = []" by auto
    have u1: "unat (usage t1) = unat (usage s0) + (k - 1)"
      using t1 unat_usage_dec [OF tn] Cons.prems(3) k by simp
    have keep: "usage s0 \<noteq> 0 \<or> k - 1 = 0 \<longrightarrow> libs t1 = libs s0 \<and> caches t1 = caches s0"
    proof
      assume a: "usage s0 \<noteq> 0 \<or> k - 1 = 0"
      show "libs t1 = libs s0 \<and> caches t1 = caches s0"
      proof (cases "usage t = 1")
        case True
        then have "unat (usage s0) + k = 1" using Cons.prems(3) by simp
        with k have "unat (usage s0) = 0" by simp
        then have "usage s0 = 0" by (simp add: unat_eq_zero)
        with inv have "libs s0 = [] \<and> caches s0 = []" by (simp add: bank_inv_def)
        with empt True show ?thesis by simp
      next
        case False
        with keep1 have same: "libs t1 = libs t \<and> caches t1 = caches t" by simp
        have "usage s0 \<noteq> 0"
        proof
          assume z: "usage s0 = 0"
          with a have "k = 1" using k by simp
          with z Cons.prems(3) have "unat (usage t) = 1" by simp
          then have "usage t = 1" by (metis unat_1 word_unat_eq_iff)
          with False show False by simp
        qed
        with Cons.prems(4) same show ?thesis by simp
      qed
    qed
    have b: "unat (usage s0) + (k - 1) + length xs < 2 ^ 32" using Cons.prems(2) k by simp
    from Cons.IH [OF m b u1 keep rest] show ?thesis .
  qed
qed

lemma run_op_inv:
  assumes "bank_inv s" and "usage s \<noteq> - 1" and "run_op h x s = Inr s'"
  shows "bank_inv s'"
proof (cases x)
  case InitLoad
  with assms(3) obtain ta n where
    ib: "module_InitBank h s = Inr ta" and lp: "module_LoadPlugins h ta = Inr (n, s')"
    by (auto split: sum.splits prod.splits)
  from InitBank_effect [OF ib] have ta: "usage ta = usage s + 1" "caches ta = caches s"
    "usage s \<noteq> 0 \<longrightarrow> libs ta = libs s" "usage s = 0 \<longrightarrow> (\<exists>p. libs ta = p # libs s)" by auto
  have nz: "usage ta \<noteq> 0" using ta(1) assms(2)
    by (metis add.commute add_eq_0_iff)
  have ne: "libs ta \<noteq> [] \<or> caches ta \<noteq> []"
    using ta assms(1) by (cases "usage s = 0") (auto simp: bank_inv_def)
  from module_LoadPlugins_grows [OF lp] have "grows ta s'" by simp
  with nz ne show ?thesis by (auto simp: grows_def bank_inv_def)
next
  case (End b)
  with assms(3) have eb: "module_EndBank b s = Inr s'" by simp
  from EndBank_effect [OF eb] assms(1) show ?thesis
    by (cases "usage s = 1") (auto simp: bank_inv_def)
qed

text \<open>
  Claim C5, as stated, fails: the use count is a 32-bit \<^verbatim>\<open>unsigned\<close>, and the increment
  in \<^verbatim>\<open>module_InitBank\<close> wraps. From a bank that satisfies the invariant with a use count
  of \<^verbatim>\<open>UINT_MAX\<close>, one more initialisation leaves the use count 0 with a descriptor still
  in the bank, so the invariant is lost, and the matching \<^verbatim>\<open>module_EndBank\<close> fails its
  assertion instead of restoring the bank.
\<close>

theorem usage_wraps_around:
  "bank_inv wrapped_state
 \<and> run_op host0 InitLoad wrapped_state = Inr (wrapped_state\<lparr>usage := 0, allocs := 1\<rparr>)
 \<and> \<not> bank_inv (wrapped_state\<lparr>usage := 0, allocs := 1\<rparr>)
 \<and> matched 0 [InitLoad, End True]
 \<and> run host0 [InitLoad, End True] wrapped_state = Inl AssertFailed"
  by (simp add: wrapped_state_def state0_def bank_inv_def module_InitBank_def
        module_LoadPlugins_def module_list_get_def alloc_def host0_def core_plugin_def
        mk_plugin_def mk_module_def module_EndBank_def)

text \<open>
  Claim C5, amended by the bound on the use count. For a bank that satisfies the invariant
  \<open>usage = 0 \<longleftrightarrow> libs = [] \<and> caches = []\<close>:
  \<^item> every matched sequence of initialisations (each followed by the loading of the
    plug-ins) and ends, short enough for the use count not to reach \<open>2 ^ 32\<close>, leaves
    descriptors, cache blocks and use count as they were, whenever it runs to its end;
  \<^item> each such call keeps the invariant, provided the use count is not \<^verbatim>\<open>UINT_MAX\<close>;
  \<^item> \<^verbatim>\<open>module_EndBank\<close> decrements the use count; unless that makes it zero, it leaves
    descriptors and cache blocks in place and destroys nothing; when it does, both lists
    are emptied, one descriptor is destroyed for each that was held, and exactly the held
    cache blocks are released.
\<close>

theorem bank_reference_counted:
  assumes "bank_inv s"
  shows "(\<forall>ops s'. matched 0 ops \<and> unat (usage s) + length ops < 2 ^ 32
                    \<and> run h ops s = Inr s' \<longrightarrow> bank_of s' = bank_of s)
       \<and> (\<forall>x s'. usage s \<noteq> - 1 \<and> run_op h x s = Inr s' \<longrightarrow> bank_inv s')
       \<and> (\<forall>b s'. module_EndBank b s = Inr s' \<longrightarrow>
             usage s \<noteq> 0 \<and> usage s' = usage s - 1
           \<and> (usage s \<noteq> 1 \<longrightarrow>
                 libs s' = libs s \<and> caches s' = caches s \<and> trace s' = trace s)
           \<and> (usage s = 1 \<longrightarrow> libs s' = [] \<and> caches s' = []
                 \<and> (\<exists>evs. trace s' = trace s @ evs
                       \<and> length (destroyed evs) = length (libs s)
                       \<and> released evs = caches s)))"
proof (intro conjI allI impI)
  fix ops s'
  assume a: "matched 0 ops \<and> unat (usage s) + length ops < 2 ^ 32 \<and> run h ops s = Inr s'"
  then have "unat (usage s) + 0 + length ops < 2 ^ 32" by simp
  from run_matched [OF assms _ this, of s h s'] a show "bank_of s' = bank_of s" by simp
next
  fix x s'
  assume "usage s \<noteq> - 1 \<and> run_op h x s = Inr s'"
  with assms show "bank_inv s'" by (blast intro: run_op_inv)
next
  fix b s'
  assume e: "module_EndBank b s = Inr s'"
  from EndBank_effect [OF e] show "usage s \<noteq> 0" by simp
  from EndBank_effect [OF e] show "usage s' = usage s - 1" by simp
  from EndBank_effect [OF e]
  show "usage s \<noteq> 1 \<Longrightarrow> libs s' = libs s" "usage s \<noteq> 1 \<Longrightarrow> caches s' = caches s"
    "usage s \<noteq> 1 \<Longrightarrow> trace s' = trace s" by simp_all
  from EndBank_effect [OF e]
  show "usage s = 1 \<Longrightarrow> libs s' = []" "usage s = 1 \<Longrightarrow> caches s' = []"
    "usage s = 1 \<Longrightarrow> \<exists>evs. trace s' = trace s @ evs
                       \<and> length (destroyed evs) = length (libs s)
                       \<and> released evs = caches s" by simp_all
qed

lemmas eval_defs =
  AllocatePluginPath_def AllocatePluginFile_def AllocatePluginFile_cached_def
  AllocatePluginFile_load_def AllocatePluginFile_force_def module_InitDynamic_def
  chain_host_def chain_file_def host0_def state0_def alloc_def emit_def entry_name_def
  is_plugin_name_def module_StoreBank_def CacheAdd_def plugin_Z_def core_plugin_def
  mk_plugin_def mk_module_def reg_stat_def dir_stat_def setters Let_def chain_found_def
  numeral_eq_Suc AllocatePluginDir.simps AllocatePluginDir_entry.simps
  module_InitBank_def module_InitStatic_def module_LoadPlugins_def
  module_InitStaticModules_def AllocateAllPlugins_def cache_mode_of_def
  module_list_get_def module_EndBank_def

theorem bank_reference_counted_witness:
  "bank_inv state0
 \<and> matched 0 [InitLoad, InitLoad, End True, End True]
 \<and> unat (usage state0) + length [InitLoad, InitLoad, End True, End True] < 2 ^ 32
 \<and> run scan_host [InitLoad, InitLoad, End True, End True] state0
     = Inr (ended_state\<lparr>allocs := 11\<rparr>)
 \<and> bank_of (ended_state\<lparr>allocs := 11\<rparr>) = bank_of state0
 \<and> run_op scan_host InitLoad state0 = Inr loaded_state
 \<and> bank_inv loaded_state
 \<and> module_EndBank True loaded_state = Inr ended_state
 \<and> libs ended_state = [] \<and> caches ended_state = []"
proof -
  have inv: "bank_inv state0" by (simp add: state0_def bank_inv_def)
  have m: "matched 0 [InitLoad, InitLoad, End True, End True]" by simp
  have b: "unat (usage state0) + length [InitLoad, InitLoad, End True, End True] < 2 ^ 32"
    by (simp add: state0_def)
  have op1: "run_op scan_host InitLoad state0 = Inr loaded_state"
    by (simp add: scan_host_def loaded_state_def eval_defs)
  have e: "module_EndBank True loaded_state = Inr ended_state"
    by (simp add: loaded_state_def ended_state_def eval_defs)
  have op2: "run_op scan_host InitLoad loaded_state
     = Inr (loaded_state\<lparr>usage := 2, allocs := 11\<rparr>)"
    by (simp add: scan_host_def loaded_state_def eval_defs)
  have op3: "run_op scan_host (End True) (loaded_state\<lparr>usage := 2, allocs := 11\<rparr>)
     = Inr (loaded_state\<lparr>allocs := 11\<rparr>)"
    by (simp add: loaded_state_def eval_defs)
  have op4: "run_op scan_host (End True) (loaded_state\<lparr>allocs := 11\<rparr>)
     = Inr (ended_state\<lparr>allocs := 11\<rparr>)"
    by (simp add: loaded_state_def ended_state_def eval_defs)
  have r: "run scan_host [InitLoad, InitLoad, End True, End True] state0
     = Inr (ended_state\<lparr>allocs := 11\<rparr>)"
    by (simp only: run.simps op1 op2 op3 op4 sum.case)
  from bank_reference_counted [OF inv, of scan_host] m b r
  have same: "bank_of (ended_state\<lparr>allocs := 11\<rparr>) = bank_of state0" by blast
  have n1: "usage state0 \<noteq> - 1" by (simp add: state0_def)
  from bank_reference_counted [OF inv, of scan_host] n1 op1
  have inv1: "bank_inv loaded_state" by blast
  have u1: "usage loaded_state = 1" by (simp add: loaded_state_def)
  from bank_reference_counted [OF inv1, of scan_host] e u1
  have "libs ended_state = [] \<and> caches ended_state = []" by blast
  with inv m b r same op1 inv1 e show ?thesis by simp
qed

subsection \<open>The flat list\<close>

lemma module_list_get_loop_ok:
  assumes "list_all wf_plugin ls" and "\<forall>k<length ls. \<not> out_of_memory h (allocs s + k)"
  shows "\<exists>tab'. module_list_get_loop h ls tab s
           = Inr ((tab', length (table_of tab) + total_modules ls),
                  s\<lparr>allocs := allocs s + length ls\<rparr>)
         \<and> table_of tab' = table_of tab @ flat_modules ls"
  using assms
proof (induction ls arbitrary: tab s)
  case Nil
  then show ?case
    by (simp add: total_modules_def flat_modules_def table_of_def split: option.splits)
next
  case (Cons lib ls)
  let ?tab1 = "Some (table_of tab @ module lib # submodule (module lib))"
  let ?s1 = "s\<lparr>allocs := Suc (allocs s)\<rparr>"
  from Cons.prems have wf: "wf_plugin lib" "list_all wf_plugin ls" by simp_all
  from Cons.prems(2) have a0: "\<not> out_of_memory h (allocs s)" by auto
  from Cons.prems(2) have rest: "\<forall>k<length ls. \<not> out_of_memory h (allocs ?s1 + k)" by auto
  from Cons.IH [OF wf(2) rest, of ?tab1] obtain tab' where
    r: "module_list_get_loop h ls ?tab1 ?s1
         = Inr ((tab', length (table_of ?tab1) + total_modules ls),
                ?s1\<lparr>allocs := allocs ?s1 + length ls\<rparr>)"
    and t: "table_of tab' = table_of ?tab1 @ flat_modules ls" by blast
  have step: "module_list_get_loop h (lib # ls) tab s = module_list_get_loop h ls ?tab1 ?s1"
    using a0 wf(1) by (simp add: alloc_def wf_plugin_def table_of_def)
  show ?case
    using r t wf(1) unfolding step
    by (simp add: table_of_def total_modules_def flat_modules_def wf_plugin_def)
qed

lemma module_list_get_loop_oom:
  assumes "list_all wf_plugin ls" and "\<exists>k<length ls. out_of_memory h (allocs s + k)"
  shows "\<exists>s'. module_list_get_loop h ls tab s = Inr ((None, 0), s')"
  using assms
proof (induction ls arbitrary: tab s)
  case Nil
  then show ?case by simp
next
  case (Cons lib ls)
  show ?case
  proof (cases "out_of_memory h (allocs s)")
    case True
    then show ?thesis by (simp add: alloc_def)
  next
    case False
    let ?s1 = "s\<lparr>allocs := Suc (allocs s)\<rparr>"
    from Cons.prems(2) obtain k where k: "k < Suc (length ls)" "out_of_memory h (allocs s + k)"
      by auto
    with False have "k \<noteq> 0" by (cases k) auto
    then obtain j where "k = Suc j" by (cases k) auto
    with k have ex: "\<exists>j<length ls. out_of_memory h (allocs ?s1 + j)" by auto
    from Cons.prems(1) have wf: "list_all wf_plugin ls" "wf_plugin lib" by simp_all
    let ?tab1 = "Some (table_of tab @ module lib # submodule (module lib))"
    have step: "module_list_get_loop h (lib # ls) tab s = module_list_get_loop h ls ?tab1 ?s1"
      using False wf(2) by (simp add: alloc_def wf_plugin_def table_of_def)
    from Cons.IH [OF wf(1) ex, of ?tab1] show ?thesis unfolding step .
  qed
qed

lemma length_flat_modules:
  "list_all wf_plugin ls \<Longrightarrow> length (flat_modules ls) = total_modules ls"
  by (induction ls) (simp_all add: flat_modules_def total_modules_def wf_plugin_def)

text \<open>
  Claim C3, as stated, fails when the table cannot be allocated: \<^verbatim>\<open>module_list_get\<close> then
  returns the null pointer and the count 0, and \<^verbatim>\<open>module_LoadPlugins\<close> returns 0 for a
  bank that holds three modules.
\<close>

theorem module_list_get_out_of_memory:
  "module_list_get oom_host two_plugins = Inr ((None, 0), two_plugins\<lparr>allocs := 2\<rparr>)
 \<and> module_LoadPlugins oom_host two_plugins = Inr (0, two_plugins\<lparr>allocs := 2\<rparr>)
 \<and> total_modules (libs two_plugins) = 3"
  by (simp add: module_list_get_def module_LoadPlugins_def oom_host_def two_plugins_def
        host0_def state0_def alloc_def plugin_A_def plugin_B_def mk_plugin_def mk_module_def
        total_modules_def)

text \<open>
  Claim C3, amended by the outcome of the allocation. For a bank of well-formed
  descriptors:
  \<^item> when every reallocation succeeds, \<^verbatim>\<open>module_list_get\<close> yields a table of exactly
    \<open>\<Sum> (1 + submodule_count)\<close> entries that holds, for each descriptor in the order of
    \<open>libs\<close>, its primary module followed by its submodules; when one fails, it yields
    the null pointer and the count 0;
  \<^item> whenever \<^verbatim>\<open>module_LoadPlugins\<close> returns, its result is that total for the bank as it has
    become, or 0; it is the total when no allocation fails.
\<close>

theorem module_list_get_total:
  "(list_all wf_plugin (libs s) \<longrightarrow>
      (if \<forall>k<length (libs s). \<not> out_of_memory h (allocs s + k)
       then \<exists>tab s'. module_list_get h s = Inr ((tab, total_modules (libs s)), s')
              \<and> table_of tab = flat_modules (libs s)
              \<and> length (table_of tab) = total_modules (libs s)
       else \<exists>s'. module_list_get h s = Inr ((None, 0), s')))
 \<and> (\<forall>count s'. module_LoadPlugins h s = Inr (count, s') \<and> list_all wf_plugin (libs s') \<longrightarrow>
        (count = total_modules (libs s') \<or> count = 0)
      \<and> ((\<forall>k. \<not> out_of_memory h k) \<longrightarrow> count = total_modules (libs s')))"
proof (intro conjI allI impI)
  assume wf: "list_all wf_plugin (libs s)"
  show "if \<forall>k<length (libs s). \<not> out_of_memory h (allocs s + k)
       then \<exists>tab s'. module_list_get h s = Inr ((tab, total_modules (libs s)), s')
              \<and> table_of tab = flat_modules (libs s)
              \<and> length (table_of tab) = total_modules (libs s)
       else \<exists>s'. module_list_get h s = Inr ((None, 0), s')"
  proof (cases "\<forall>k<length (libs s). \<not> out_of_memory h (allocs s + k)")
    case True
    from module_list_get_loop_ok [OF wf True, of None] length_flat_modules [OF wf] True
    show ?thesis by (auto simp: module_list_get_def table_of_def)
  next
    case False
    then have "\<exists>k<length (libs s). out_of_memory h (allocs s + k)" by blast
    from module_list_get_loop_oom [OF wf this, of None]
    have "\<exists>s'. module_list_get h s = Inr ((None, 0), s')" by (simp add: module_list_get_def)
    with False show ?thesis by (simp only: if_False)
  qed
next
  fix count s'
  assume a: "module_LoadPlugins h s = Inr (count, s') \<and> list_all wf_plugin (libs s')"
  then obtain s1 tab where get: "module_list_get h s1 = Inr ((tab, count), s')"
    by (auto simp: module_LoadPlugins_def split: sum.splits prod.splits)
  then have "bank_of s' = bank_of s1"
    by (simp add: module_list_get_def module_list_get_loop_bank)
  then have l: "libs s' = libs s1" by (simp add: bank_of_def)
  with a have wf: "list_all wf_plugin (libs s1)" by simp
  have ok: "count = total_modules (libs s1)"
    if "\<forall>k<length (libs s1). \<not> out_of_memory h (allocs s1 + k)"
    using module_list_get_loop_ok [OF wf that, of None] get
    by (auto simp: module_list_get_def table_of_def)
  have bad: "count = 0" if "\<exists>k<length (libs s1). out_of_memory h (allocs s1 + k)"
    using module_list_get_loop_oom [OF wf that, of None] get
    by (auto simp: module_list_get_def)
  from ok bad l show "count = total_modules (libs s') \<or> count = 0" by auto
  from ok l show "count = total_modules (libs s')" if "\<forall>k. \<not> out_of_memory h k"
    using that by simp
qed

theorem module_list_get_total_witness:
  "list_all wf_plugin (libs two_plugins)
 \<and> list_all (\<lambda>k. \<not> out_of_memory host0 (allocs two_plugins + k))
      [0..<length (libs two_plugins)]
 \<and> module_list_get host0 two_plugins
     = Inr ((Some [module plugin_A, mk_module ''y'' 20, module plugin_B], 3),
            two_plugins\<lparr>allocs := 2\<rparr>)
 \<and> flat_modules (libs two_plugins) = [module plugin_A, mk_module ''y'' 20, module plugin_B]
 \<and> total_modules (libs two_plugins) = 3
 \<and> module_LoadPlugins host0 two_plugins = Inr (3, two_plugins\<lparr>allocs := 2\<rparr>)"
proof -
  have wf: "list_all wf_plugin (libs two_plugins)"
    by (simp add: two_plugins_def wf_plugin_def plugin_A_def plugin_B_def mk_plugin_def)
  have mem: "\<forall>k<length (libs two_plugins). \<not> out_of_memory host0 (allocs two_plugins + k)"
    by (simp add: host0_def)
  have get: "module_list_get host0 two_plugins
     = Inr ((Some [module plugin_A, mk_module ''y'' 20, module plugin_B], 3),
            two_plugins\<lparr>allocs := 2\<rparr>)"
    by (simp add: module_list_get_def two_plugins_def host0_def state0_def alloc_def
          plugin_A_def plugin_B_def mk_plugin_def mk_module_def)
  have load: "module_LoadPlugins host0 two_plugins = Inr (3, two_plugins\<lparr>allocs := 2\<rparr>)"
    using get by (simp add: module_LoadPlugins_def two_plugins_def)
  have flat: "flat_modules (libs two_plugins)
     = [module plugin_A, mk_module ''y'' 20, module plugin_B]"
    by (simp add: flat_modules_def two_plugins_def plugin_A_def plugin_B_def mk_plugin_def)
  from module_list_get_total [of two_plugins host0] wf mem get
  have "total_modules (libs two_plugins) = 3" by auto
  moreover have "list_all (\<lambda>k. \<not> out_of_memory host0 (allocs two_plugins + k))
      [0..<length (libs two_plugins)]"
    using mem by (simp add: list_all_iff)
  ultimately show ?thesis using wf get load flat by simp
qed

subsection \<open>The capability list\<close>

lemma module_list_cap_count_eq:
  "module_list_cap_count h cap ls n
     = n + int (length (filter (\<lambda>m. module_provides h m cap) (flat_modules ls)))"
  by (induction ls arbitrary: n) (simp_all add: flat_modules_def)

lemma module_list_cap_fill_eq:
  "module_list_cap_fill h cap ls tab
     = tab @ filter (\<lambda>m. module_provides h m cap) (flat_modules ls)"
  by (induction ls arbitrary: tab) (simp_all add: flat_modules_def)

text \<open>
  The count is the number of providers, the assertion of \<^verbatim>\<open>module_list_cap\<close> holds, and
  a failed allocation gives -1 and the null pointer.
\<close>

lemma module_list_cap_eq:
  "module_list_cap h cap s =
     (if out_of_memory h (allocs s) then Inr ((- 1, None), s\<lparr>allocs := Suc (allocs s)\<rparr>)
      else Inr ((int (length (filter (\<lambda>m. module_provides h m cap) (flat_modules (libs s)))),
                 Some (qsort modulecmp
                         (filter (\<lambda>m. module_provides h m cap) (flat_modules (libs s))))),
                s\<lparr>allocs := Suc (allocs s)\<rparr>))"
  by (simp add: module_list_cap_def Let_def alloc_def module_list_cap_count_eq
        module_list_cap_fill_eq)

lemma set_qsort_insert: "set (qsort_insert cmp x xs) = insert x (set xs)"
  by (induction xs) auto

lemma length_qsort_insert: "length (qsort_insert cmp x xs) = Suc (length xs)"
  by (induction xs) auto

lemma set_qsort: "set (qsort cmp xs) = set xs"
  by (induction xs) (simp_all add: set_qsort_insert)

lemma length_qsort: "length (qsort cmp xs) = length xs"
  by (induction xs) (simp_all add: length_qsort_insert)

text \<open>For scores that are not extreme the comparator has the sign of the difference.\<close>

lemma modulecmp_small:
  assumes "small_score a" and "small_score b"
  shows "sint (modulecmp a b) = sint (i_score b) - sint (i_score a)"
proof -
  have lo: "- (2 ^ 31) \<le> sint (i_score b) - sint (i_score a)"
    using assms by (simp add: small_score_def)
  have hi: "sint (i_score b) - sint (i_score a) < 2 ^ 31"
    using assms by (simp add: small_score_def)
  have "sint (modulecmp a b)
          = signed_take_bit (LENGTH(32) - 1) (sint (i_score b) - sint (i_score a))"
    by (simp only: modulecmp_def sint_word_diff)
  also have "\<dots> = sint (i_score b) - sint (i_score a)"
    using lo hi by (simp add: signed_take_bit_int_eq_self)
  finally show ?thesis .
qed

lemma sorted_qsort_insert:
  assumes "small_score x" and "\<forall>y\<in>set xs. small_score y" and "sorted_wrt by_score xs"
  shows "sorted_wrt by_score (qsort_insert modulecmp x xs)"
  using assms
proof (induction xs)
  case Nil
  then show ?case by simp
next
  case (Cons y ys)
  have c: "sint (modulecmp x y) = sint (i_score y) - sint (i_score x)"
    using Cons.prems by (simp add: modulecmp_small)
  show ?case
  proof (cases "sint (modulecmp x y) \<le> 0")
    case True
    with c have xy: "by_score x y" by (simp add: by_score_def)
    have "\<forall>z\<in>set ys. by_score x z"
      using Cons.prems(3) xy by (auto simp: by_score_def)
    with True xy Cons.prems(3) show ?thesis by simp
  next
    case False
    with c have yx: "by_score y x" by (simp add: by_score_def)
    have "sorted_wrt by_score (qsort_insert modulecmp x ys)"
      using Cons by simp
    with False yx Cons.prems(3) show ?thesis by (simp add: set_qsort_insert)
  qed
qed

text \<open>
  As long as no score is extreme, the table is sorted from the highest score to the
  lowest, as the comment on \<^verbatim>\<open>module_list_cap\<close> promises.
\<close>

lemma sorted_qsort_small:
  "\<forall>y\<in>set xs. small_score y \<Longrightarrow> sorted_wrt by_score (qsort modulecmp xs)"
  by (induction xs) (simp_all add: sorted_qsort_insert set_qsort)

text \<open>
  Claim C4. The claim says that the table \<^verbatim>\<open>module_list_cap\<close> returns is sorted
  non-increasing by score. The comparator \<^verbatim>\<open>modulecmp\<close> subtracts the two scores as C
  \<^verbatim>\<open>int\<close>s, and the difference of \<^verbatim>\<open>INT_MAX\<close> and -2 does not fit: it comes out positive
  where it should be negative. For a bank with one module of each score, both providing
  capability \<^verbatim>\<open>x\<close>, the returned table has the module with score -2 before the one with
  score \<^verbatim>\<open>INT_MAX\<close>. (Count, allocation failure and, for scores that are not extreme,
  the order are as the claim says: \<open>module_list_cap_eq\<close>, \<open>sorted_qsort_small\<close>.)
\<close>

theorem module_list_cap_extreme_scores:
  "module_list_cap host0 ''x'' (state0\<lparr>libs := [plugin_max, plugin_neg], usage := 1\<rparr>)
     = Inr ((2, Some [module plugin_neg, module plugin_max]),
            state0\<lparr>libs := [plugin_max, plugin_neg], usage := 1, allocs := 1\<rparr>)
 \<and> sint (i_score (module plugin_neg)) = - 2
 \<and> sint (i_score (module plugin_max)) = 2147483647
 \<and> \<not> sorted_wrt by_score [module plugin_neg, module plugin_max]"
  by (simp add: module_list_cap_def alloc_def host0_def state0_def plugin_max_def
        plugin_neg_def mk_plugin_def mk_module_def modulecmp_def by_score_def)

subsection \<open>Which files are candidates\<close>

lemma name_split:
  assumes "take 3 fl = ''lib''" and "drop (length fl - length suf) fl = suf"
      and "hd suf = CHR ''_''" and "suf \<noteq> []" and "length suf < length fl"
  shows "\<exists>stem. fl = ''lib'' @ stem @ suf"
proof -
  let ?k = "length fl - length suf"
  have k_lt: "?k < length fl" using assms(4,5) by (cases suf) auto
  have at_k: "fl ! ?k = CHR ''_''"
    using assms(2,3,4) k_lt by (metis hd_drop_conv_nth)
  have "fl ! 0 = CHR ''l'' \<and> fl ! 1 = CHR ''i'' \<and> fl ! 2 = CHR ''b''"
  proof -
    have "\<forall>i<3. fl ! i = (take 3 fl) ! i" by simp
    then show ?thesis unfolding assms(1) by (simp add: numeral_3_eq_3)
  qed
  with at_k have "?k \<noteq> 0 \<and> ?k \<noteq> 1 \<and> ?k \<noteq> 2" by auto
  then have k3: "3 \<le> ?k" by arith
  have "fl = take ?k fl @ suf" using assms(2) by (metis append_take_drop_id)
  moreover have "take ?k fl = take 3 fl @ take (?k - 3) (drop 3 fl)"
    using k3 by (metis take_add le_add_diff_inverse)
  ultimately have "fl = ''lib'' @ take (?k - 3) (drop 3 fl) @ suf"
    using assms(1) by simp
  then show ?thesis by blast
qed

text \<open>The test on the name accepts exactly the names of the pattern.\<close>

lemma is_plugin_name_iff:
  "is_plugin_name h fl = (\<exists>stem. fl = ''lib'' @ stem @ ''_plugin'' @ LIBEXT h)"
proof
  assume "is_plugin_name h fl"
  then have a: "take 3 fl = ''lib''"
    and b: "drop (length fl - length (''_plugin'' @ LIBEXT h)) fl = ''_plugin'' @ LIBEXT h"
    and c: "length (''_plugin'' @ LIBEXT h) < length fl"
    by (simp_all add: is_plugin_name_def Let_def numeral_3_eq_3)
  from name_split [OF a b _ _ c] show "\<exists>stem. fl = ''lib'' @ stem @ ''_plugin'' @ LIBEXT h"
    by simp
next
  assume "\<exists>stem. fl = ''lib'' @ stem @ ''_plugin'' @ LIBEXT h"
  then show "is_plugin_name h fl"
    by (auto simp: is_plugin_name_def Let_def numeral_3_eq_3)
qed

lemma not_plugin_names:
  "\<not> is_plugin_name h (''foo_plugin'' @ LIBEXT h)"
  "\<not> is_plugin_name h (''libfoo'' @ LIBEXT h)"
  by (auto simp: is_plugin_name_def Let_def)

text \<open>
  Claim C7. An entry other than \<^verbatim>\<open>.\<close> and \<^verbatim>\<open>..\<close> that the walk finds to be a regular
  file (its two path names were allocated and \<^verbatim>\<open>vlc_stat\<close> says so) is handed to
  \<^verbatim>\<open>AllocatePluginFile\<close> exactly when its name is \<^verbatim>\<open>lib\<close>, any stem, \<^verbatim>\<open>_plugin\<close> and the
  library extension; otherwise it is passed over. The names \<^verbatim>\<open>foo_plugin\<close> and
  \<^verbatim>\<open>libfoo\<close> with the extension are not of that form.
\<close>

theorem AllocatePluginDir_entry_regular_file:
  assumes "file \<noteq> ''.''" and "file \<noteq> ''..''"
      and "\<not> out_of_memory h (allocs s)" and "\<not> out_of_memory h (Suc (allocs s))"
      and "vlc_stat h (base bank @ DIR_SEP h @ rel_join h reldir file) = Some st"
      and "st_mode st = S_IFREG"
  shows "AllocatePluginDir_entry h d reldir file (bank, s) =
           (if \<exists>stem. file = ''lib'' @ stem @ ''_plugin'' @ LIBEXT h
            then (case AllocatePluginFile h (base bank @ DIR_SEP h @ rel_join h reldir file)
                         (rel_join h reldir file) st (bank, s\<lparr>allocs := allocs s + 2\<rparr>) of
                    Inl f \<Rightarrow> Inl f
                  | Inr (r, bs') \<Rightarrow> Inr bs')
            else Inr (bank, s\<lparr>allocs := allocs s + 2\<rparr>))
       \<and> is_plugin_name h file = (\<exists>stem. file = ''lib'' @ stem @ ''_plugin'' @ LIBEXT h)
       \<and> \<not> is_plugin_name h (''foo_plugin'' @ LIBEXT h)
       \<and> \<not> is_plugin_name h (''libfoo'' @ LIBEXT h)"
proof -
  have main: "AllocatePluginDir_entry h d reldir file (bank, s) =
           (if is_plugin_name h file
            then (case AllocatePluginFile h (base bank @ DIR_SEP h @ rel_join h reldir file)
                         (rel_join h reldir file) st (bank, s\<lparr>allocs := allocs s + 2\<rparr>) of
                    Inl f \<Rightarrow> Inl f
                  | Inr (r, bs') \<Rightarrow> Inr bs')
            else Inr (bank, s\<lparr>allocs := allocs s + 2\<rparr>))"
    using assms
    by (simp add: AllocatePluginDir_entry.simps alloc_def rel_join_def Let_def)
  show ?thesis
    using main not_plugin_names [of h] is_plugin_name_iff [of h "file"] by simp
qed

theorem AllocatePluginDir_entry_regular_file_witness:
  "''libZ_plugin.so'' \<noteq> ''.'' \<and> ''libZ_plugin.so'' \<noteq> ''..''
 \<and> \<not> out_of_memory (chain_host 0) (allocs state0)
 \<and> \<not> out_of_memory (chain_host 0) (Suc (allocs state0))
 \<and> vlc_stat (chain_host 0)
       (base (bank_of_mode CACHE_IGNORE) @ DIR_SEP (chain_host 0)
          @ rel_join (chain_host 0) None ''libZ_plugin.so'') = Some reg_stat
 \<and> st_mode reg_stat = S_IFREG
 \<and> AllocatePluginDir_entry (chain_host 0) 4 None ''libZ_plugin.so''
       (bank_of_mode CACHE_IGNORE, state0)
     = Inr (bank_of_mode CACHE_IGNORE,
            state0\<lparr>libs := [chain_found 0], trace := [DlLoad ''r/libZ_plugin.so'' True],
                    allocs := 4\<rparr>)"
proof -
  have a: "''libZ_plugin.so'' \<noteq> ''.''" "''libZ_plugin.so'' \<noteq> ''..''" by simp_all
  have m: "\<not> out_of_memory (chain_host 0) (allocs state0)"
    "\<not> out_of_memory (chain_host 0) (Suc (allocs state0))"
    by (simp_all add: chain_host_def host0_def)
  have st: "vlc_stat (chain_host 0)
       (base (bank_of_mode CACHE_IGNORE) @ DIR_SEP (chain_host 0)
          @ rel_join (chain_host 0) None ''libZ_plugin.so'') = Some reg_stat"
    by (simp add: chain_host_def host0_def bank_of_mode_def rel_join_def chain_file_def)
  have reg: "st_mode reg_stat = S_IFREG" by (simp add: reg_stat_def)
  have name: "\<exists>stem. ''libZ_plugin.so'' = ''lib'' @ stem @ ''_plugin'' @ LIBEXT (chain_host 0)"
    by (rule exI [of _ "''Z''"]) (simp add: chain_host_def host0_def)
  have scanned: "AllocatePluginFile (chain_host 0) ''r/libZ_plugin.so'' ''libZ_plugin.so'' reg_stat
       (bank_of_mode CACHE_IGNORE, state0\<lparr>allocs := 2\<rparr>)
     = Inr (0, bank_of_mode CACHE_IGNORE,
            state0\<lparr>libs := [chain_found 0], trace := [DlLoad ''r/libZ_plugin.so'' True],
                    allocs := 4\<rparr>)"
    by (simp add: bank_of_mode_def eval_defs)
  have p: "base (bank_of_mode CACHE_IGNORE) @ DIR_SEP (chain_host 0) @ ''libZ_plugin.so''
             = ''r/libZ_plugin.so''"
    by (simp add: chain_host_def host0_def bank_of_mode_def)
  have r: "rel_join (chain_host 0) None ''libZ_plugin.so'' = ''libZ_plugin.so''"
    by (simp add: rel_join_def)
  have s2: "state0\<lparr>allocs := allocs state0 + 2\<rparr> = state0\<lparr>allocs := 2\<rparr>"
    by (simp add: state0_def)
  from AllocatePluginDir_entry_regular_file [OF a m st reg, of 4]
  have "AllocatePluginDir_entry (chain_host 0) 4 None ''libZ_plugin.so''
       (bank_of_mode CACHE_IGNORE, state0)
     = Inr (bank_of_mode CACHE_IGNORE,
            state0\<lparr>libs := [chain_found 0], trace := [DlLoad ''r/libZ_plugin.so'' True],
                    allocs := 4\<rparr>)"
    unfolding r p s2 scanned using name by simp
  with a m st reg show ?thesis by simp
qed

subsection \<open>Plug-ins with callbacks are loaded at once\<close>




subsection \<open>The depth of the walk\<close>

text \<open>Going down one more subdirectory first, and allowing one more level.\<close>

lemma descends_child:
  assumes "c \<noteq> ''.''" and "c \<noteq> ''..''" and "entry_of h root r c"
      and "is_dir h (abs_of h root (Some (rel_join h r c)))"
      and "descends h root (Some (rel_join h r c)) cs"
  shows "descends h root r (c # cs) \<and> walk_to h r (c # cs) = walk_to h (Some (rel_join h r c)) cs"
  using assms by simp

lemma scans_within_refl [simp]: "scans_within h root r k s s"
  by (simp add: scans_within_def)

lemma scans_within_allocs [simp]: "scans_within h root r k s (s\<lparr>allocs := n\<rparr>)"
  by (simp add: scans_within_def)

lemma scans_within_trans:
  assumes "scans_within h root r k s s1" and "scans_within h root r k s1 s2"
  shows "scans_within h root r k s s2"
proof -
  let ?O = "\<lambda>evs. \<forall>p. Opendir p \<in> set evs \<longrightarrow>
              (\<exists>comps. length comps \<le> k \<and> descends h root r comps
                    \<and> p = abs_of h root (walk_to h r comps))"
  let ?L = "\<lambda>evs. \<forall>p fast. DlLoad p fast \<in> set evs \<longrightarrow>
              (\<exists>comps name. length comps \<le> k \<and> descends h root r comps
                    \<and> entry_of h root (walk_to h r comps) name
                    \<and> is_plugin_name h name
                    \<and> p = abs_of h root (Some (rel_join h (walk_to h r comps) name)))"
  from assms obtain e1 e2 where
    1: "trace s1 = trace s @ e1" "?O e1" "?L e1"
    and 2: "trace s2 = trace s1 @ e2" "?O e2" "?L e2"
    unfolding scans_within_def by blast
  have t: "trace s2 = trace s @ (e1 @ e2)" using 1(1) 2(1) by simp
  have o: "?O (e1 @ e2)" using 1(2) 2(2) by auto
  have l: "?L (e1 @ e2)" using 1(3) 2(3) by auto
  from t o l show ?thesis unfolding scans_within_def by blast
qed

lemma scans_within_mono:
  assumes "scans_within h root r k s s'" and "k \<le> k'"
  shows "scans_within h root r k' s s'"
proof -
  from assms(1) obtain evs where
    t: "trace s' = trace s @ evs"
    and o: "\<forall>p. Opendir p \<in> set evs \<longrightarrow>
              (\<exists>comps. length comps \<le> k \<and> descends h root r comps
                    \<and> p = abs_of h root (walk_to h r comps))"
    and l: "\<forall>p fast. DlLoad p fast \<in> set evs \<longrightarrow>
              (\<exists>comps name. length comps \<le> k \<and> descends h root r comps
                    \<and> entry_of h root (walk_to h r comps) name
                    \<and> is_plugin_name h name
                    \<and> p = abs_of h root (Some (rel_join h (walk_to h r comps) name)))"
    unfolding scans_within_def by blast
  have o': "\<forall>p. Opendir p \<in> set evs \<longrightarrow>
              (\<exists>comps. length comps \<le> k' \<and> descends h root r comps
                    \<and> p = abs_of h root (walk_to h r comps))"
    using o assms(2) by (meson le_trans)
  have l': "\<forall>p fast. DlLoad p fast \<in> set evs \<longrightarrow>
              (\<exists>comps name. length comps \<le> k' \<and> descends h root r comps
                    \<and> entry_of h root (walk_to h r comps) name
                    \<and> is_plugin_name h name
                    \<and> p = abs_of h root (Some (rel_join h (walk_to h r comps) name)))"
    using l assms(2) by (meson le_trans)
  from t o' l' show ?thesis unfolding scans_within_def by blast
qed

text \<open>What a walk of a subdirectory has scanned, seen from its parent.\<close>

lemma scans_within_child:
  assumes c: "c \<noteq> ''.''" "c \<noteq> ''..''" "entry_of h root r c"
             "is_dir h (abs_of h root (Some (rel_join h r c)))"
      and w: "scans_within h root (Some (rel_join h r c)) k s s'"
  shows "scans_within h root r (Suc k) s s'"
proof -
  let ?r' = "Some (rel_join h r c)"
  from w obtain evs where
    t: "trace s' = trace s @ evs"
    and o: "\<forall>p. Opendir p \<in> set evs \<longrightarrow>
              (\<exists>comps. length comps \<le> k \<and> descends h root ?r' comps
                    \<and> p = abs_of h root (walk_to h ?r' comps))"
    and l: "\<forall>p fast. DlLoad p fast \<in> set evs \<longrightarrow>
              (\<exists>comps name. length comps \<le> k \<and> descends h root ?r' comps
                    \<and> entry_of h root (walk_to h ?r' comps) name
                    \<and> is_plugin_name h name
                    \<and> p = abs_of h root (Some (rel_join h (walk_to h ?r' comps) name)))"
    unfolding scans_within_def by blast
  have o': "\<exists>comps. length comps \<le> Suc k \<and> descends h root r comps
                    \<and> p = abs_of h root (walk_to h r comps)"
    if "Opendir p \<in> set evs" for p
  proof -
    from o that obtain cs where "length cs \<le> k" "descends h root ?r' cs"
      "p = abs_of h root (walk_to h ?r' cs)" by blast
    with c have "length (c # cs) \<le> Suc k \<and> descends h root r (c # cs)
                    \<and> p = abs_of h root (walk_to h r (c # cs))" by simp
    then show ?thesis by blast
  qed
  have l': "\<exists>comps name. length comps \<le> Suc k \<and> descends h root r comps
                    \<and> entry_of h root (walk_to h r comps) name
                    \<and> is_plugin_name h name
                    \<and> p = abs_of h root (Some (rel_join h (walk_to h r comps) name))"
    if "DlLoad p fast \<in> set evs" for p fast
  proof -
    from l that obtain cs name where "length cs \<le> k" "descends h root ?r' cs"
      "entry_of h root (walk_to h ?r' cs) name" "is_plugin_name h name"
      "p = abs_of h root (Some (rel_join h (walk_to h ?r' cs) name))" by blast
    with c have "length (c # cs) \<le> Suc k \<and> descends h root r (c # cs)
                    \<and> entry_of h root (walk_to h r (c # cs)) name
                    \<and> is_plugin_name h name
                    \<and> p = abs_of h root (Some (rel_join h (walk_to h r (c # cs)) name))"
      by simp
    then show ?thesis by blast
  qed
  from t o' l' show ?thesis unfolding scans_within_def by blast
qed

text \<open>The loader adds to the trace only calls of the dynamic linker for its file.\<close>

lemma module_InitDynamic_events:
  "module_InitDynamic h pth fast s = (r, s') \<Longrightarrow>
     \<exists>evs. trace s' = trace s @ evs
          \<and> list_all (\<lambda>e. case e of Opendir p \<Rightarrow> False | DlLoad p f \<Rightarrow> p = pth | _ \<Rightarrow> True) evs"
  by (auto simp: module_InitDynamic_def Let_def alloc_def emit_def
      split: option.splits prod.splits bool.splits if_splits)

lemma AllocatePluginFile_events_list:
  assumes "AllocatePluginFile h a r st (bank, s) = Inr (x, bank', s')"
  shows "\<exists>evs. trace s' = trace s @ evs
          \<and> list_all (\<lambda>e. case e of Opendir p \<Rightarrow> False | DlLoad p f \<Rightarrow> p = a | _ \<Rightarrow> True) evs"
  using assms
  apply (simp add: AllocatePluginFile_def AllocatePluginFile_cached_def
      AllocatePluginFile_load_def AllocatePluginFile_force_def Let_def alloc_def CacheAdd_def
      split: prod.splits option.splits bool.splits sum.splits if_splits)
                      apply (auto dest!: module_InitDynamic_events
      simp: module_StoreBank_def emit_def)
  done

lemma AllocatePluginFile_events:
  assumes "AllocatePluginFile h a r st (bank, s) = Inr (x, bank', s')"
  shows "\<exists>evs. trace s' = trace s @ evs \<and> (\<forall>p. Opendir p \<notin> set evs)
          \<and> (\<forall>p f. DlLoad p f \<in> set evs \<longrightarrow> p = a)"
proof -
  from AllocatePluginFile_events_list [OF assms] obtain evs where
    t: "trace s' = trace s @ evs"
    and l: "list_all (\<lambda>e. case e of Opendir p \<Rightarrow> False | DlLoad p f \<Rightarrow> p = a | _ \<Rightarrow> True) evs"
    by blast
  have "\<forall>p. Opendir p \<notin> set evs" using l by (auto simp: list_all_iff)
  moreover have "\<forall>p f. DlLoad p f \<in> set evs \<longrightarrow> p = a" using l by (auto simp: list_all_iff)
  ultimately show ?thesis using t by blast
qed

text \<open>
  An entry that is dealt with without a fault, with what the walk has found out about it.
\<close>

lemma entry_cases_full:
  assumes "AllocatePluginDir_entry h d reldir fl (bank, s) = Inr bs'"
  obtains (skip) n where "bs' = (bank, s\<lparr>allocs := n\<rparr>)"
    | (regular) st x where "is_plugin_name h fl"
        "AllocatePluginFile h (base bank @ DIR_SEP h @ rel_join h reldir fl)
           (rel_join h reldir fl) st (bank, s\<lparr>allocs := Suc (Suc (allocs s))\<rparr>) = Inr (x, bs')"
    | (directory) "fl \<noteq> ''.''" "fl \<noteq> ''..''"
        "is_dir h (base bank @ DIR_SEP h @ rel_join h reldir fl)"
        "AllocatePluginDir h d (base bank @ DIR_SEP h @ rel_join h reldir fl)
           (Some (rel_join h reldir fl)) (bank, s\<lparr>allocs := Suc (Suc (allocs s))\<rparr>) = Inr bs'"
proof -
  have id: "(bank, s) = (bank, s\<lparr>allocs := allocs s\<rparr>)" by simp
  have dirI: "is_dir h p" if "vlc_stat h p = Some st" "st_mode st = S_IFDIR" for p st
    using that by (simp add: is_dir_def)
  from assms show ?thesis
    unfolding AllocatePluginDir_entry.simps rel_join_def [symmetric]
    apply (simp add: Let_def alloc_def
        split: if_splits option.splits sum.splits prod.splits bool.splits)
    using id skip regular directory dirI apply blast+
    done
qed

text \<open>
  The walk stays within its depth: a call with \<^verbatim>\<open>maxdepth = d\<close> for the directory \<open>reldir\<close>
  opens directories, and loads files from directories, that lie at most \<open>d - 1\<close>
  subdirectories below \<open>reldir\<close>.
\<close>

lemma walk_scans_all:
  "(absdir = abs_of h (base (fst bs)) reldir \<longrightarrow>
     (\<forall>bs'. AllocatePluginDir h d absdir reldir bs = Inr bs' \<longrightarrow>
        scans_within h (base (fst bs)) reldir (d - 1) (snd bs) (snd bs')))
 \<and> (entry_of h (base (fst bs1)) reldir1 fl \<longrightarrow>
     (\<forall>bs'. AllocatePluginDir_entry h d reldir1 fl bs1 = Inr bs' \<longrightarrow>
        scans_within h (base (fst bs1)) reldir1 d (snd bs1) (snd bs')))
 \<and> ((\<forall>f\<in>set files. entry_of h (base (fst bs2)) reldir2 f) \<longrightarrow>
     (\<forall>bs'. AllocatePluginDir_loop h d reldir2 files bs2 = Inr bs' \<longrightarrow>
        scans_within h (base (fst bs2)) reldir2 d (snd bs2) (snd bs')))"
proof (rule walk_induct
    [where P = "\<lambda>d absdir reldir bs. absdir = abs_of h (base (fst bs)) reldir \<longrightarrow>
                  (\<forall>bs'. AllocatePluginDir h d absdir reldir bs = Inr bs' \<longrightarrow>
                     scans_within h (base (fst bs)) reldir (d - 1) (snd bs) (snd bs'))"
       and E = "\<lambda>d reldir fl bs. entry_of h (base (fst bs)) reldir fl \<longrightarrow>
                  (\<forall>bs'. AllocatePluginDir_entry h d reldir fl bs = Inr bs' \<longrightarrow>
                     scans_within h (base (fst bs)) reldir d (snd bs) (snd bs'))"
       and Q = "\<lambda>d reldir files bs. (\<forall>f\<in>set files. entry_of h (base (fst bs)) reldir f) \<longrightarrow>
                  (\<forall>bs'. AllocatePluginDir_loop h d reldir files bs = Inr bs' \<longrightarrow>
                     scans_within h (base (fst bs)) reldir d (snd bs) (snd bs'))"],
    goal_cases)
  case (1 absdir reldir bs)
  then show ?case by (simp add: AllocatePluginDir_0)
next
  case (2 d absdir reldir bs)
  obtain bank s where bs: "bs = (bank, s)" by (cases bs)
  show ?case unfolding bs
  proof (intro allI impI)
    fix bs'
    assume abs: "absdir = abs_of h (base (fst (bank, s))) reldir"
      and r: "AllocatePluginDir h (Suc d) absdir reldir (bank, s) = Inr bs'"
    have "length ([] :: string list) \<le> d \<and> descends h (base bank) reldir []
            \<and> absdir = abs_of h (base bank) (walk_to h reldir [])"
      using abs by simp
    then have "\<exists>comps. length comps \<le> d \<and> descends h (base bank) reldir comps
            \<and> absdir = abs_of h (base bank) (walk_to h reldir comps)"
      by blast
    then have e: "scans_within h (base bank) reldir d s (emit (Opendir absdir) s)"
      unfolding scans_within_def emit_def by simp
    show "scans_within h (base (fst (bank, s))) reldir (Suc d - 1) (snd (bank, s)) (snd bs')"
    proof (cases "vlc_opendir h absdir")
      case None
      with r e show ?thesis by (auto simp: AllocatePluginDir_Suc)
    next
      case (Some files)
      with r have l: "AllocatePluginDir_loop h d reldir files (bank, emit (Opendir absdir) s)
                        = Inr bs'"
        by (simp add: AllocatePluginDir_Suc)
      have ent: "\<forall>f\<in>set files. entry_of h (base (fst (bank, emit (Opendir absdir) s))) reldir f"
        using Some abs by (simp add: entry_of_def)
      from 2 [where r = reldir and files = files and bs' = "(bank, emit (Opendir absdir) s)"]
        ent l
      have "scans_within h (base bank) reldir d (emit (Opendir absdir) s) (snd bs')" by simp
      from scans_within_trans [OF e this] show ?thesis by simp
    qed
  qed
next
  case (3 d reldir fl bs)
  obtain bank s where bs: "bs = (bank, s)" by (cases bs)
  show ?case unfolding bs
  proof (intro allI impI)
    fix bs'
    assume ent: "entry_of h (base (fst (bank, s))) reldir fl"
      and r: "AllocatePluginDir_entry h d reldir fl (bank, s) = Inr bs'"
    let ?s2 = "s\<lparr>allocs := Suc (Suc (allocs s))\<rparr>"
    let ?abs = "base bank @ DIR_SEP h @ rel_join h reldir fl"
    have abs: "?abs = abs_of h (base bank) (Some (rel_join h reldir fl))"
      by (simp add: abs_of_def)
    have s2: "scans_within h (base bank) reldir d s ?s2" by simp
    from r show "scans_within h (base (fst (bank, s))) reldir d (snd (bank, s)) (snd bs')"
    proof (cases rule: entry_cases_full)
      case (skip n)
      then show ?thesis by simp
    next
      case (regular st x)
      obtain bank' s' where bs': "bs' = (bank', s')" by (cases bs')
      from AllocatePluginFile_events [OF regular(2) [unfolded bs']] obtain evs where
        t: "trace s' = trace ?s2 @ evs" and o: "\<forall>p. Opendir p \<notin> set evs"
        and l: "\<forall>p f. DlLoad p f \<in> set evs \<longrightarrow> p = ?abs" by blast
      have here: "length ([] :: string list) \<le> d \<and> descends h (base bank) reldir []
            \<and> entry_of h (base bank) (walk_to h reldir []) fl \<and> is_plugin_name h fl
            \<and> ?abs = abs_of h (base bank) (Some (rel_join h (walk_to h reldir []) fl))"
        using ent regular(1) abs by simp
      have "\<forall>p f. DlLoad p f \<in> set evs \<longrightarrow>
              (\<exists>comps name. length comps \<le> d \<and> descends h (base bank) reldir comps
                    \<and> entry_of h (base bank) (walk_to h reldir comps) name
                    \<and> is_plugin_name h name
                    \<and> p = abs_of h (base bank)
                            (Some (rel_join h (walk_to h reldir comps) name)))"
        using l here by blast
      with t o have "scans_within h (base bank) reldir d ?s2 s'"
        unfolding scans_within_def by blast
      from scans_within_trans [OF s2 this] show ?thesis unfolding bs' by simp
    next
      case directory
      have "scans_within h (base bank) reldir d ?s2 (snd bs')"
      proof (cases d)
        case 0
        with directory(4) show ?thesis by (auto simp: AllocatePluginDir_0)
      next
        case (Suc d')
        have a: "?abs = abs_of h (base (fst (bank, ?s2))) (Some (rel_join h reldir fl))"
          by (simp add: abs_of_def)
        from 3 [rule_format, OF a directory(4)]
        have w: "scans_within h (base bank) (Some (rel_join h reldir fl)) d' ?s2 (snd bs')"
          using Suc by simp
        have dir: "is_dir h (abs_of h (base bank) (Some (rel_join h reldir fl)))"
          using directory(3) abs by simp
        from ent have ent': "entry_of h (base bank) reldir fl" by simp
        show ?thesis unfolding Suc
          by (rule scans_within_child [OF directory(1) directory(2) ent' dir w])
      qed
      from scans_within_trans [OF s2 this] show ?thesis by simp
    qed
  qed
next
  case (4 d reldir bs)
  then show ?case by simp
next
  case (5 d reldir fl files bs)
  show ?case
  proof (intro allI impI)
    fix bs'
    assume ent: "\<forall>f\<in>set (fl # files). entry_of h (base (fst bs)) reldir f"
      and r: "AllocatePluginDir_loop h d reldir (fl # files) bs = Inr bs'"
    then obtain bs1 where e: "AllocatePluginDir_entry h d reldir fl bs = Inr bs1"
      and l: "AllocatePluginDir_loop h d reldir files bs1 = Inr bs'"
      by (auto split: sum.splits)
    have b: "base (fst bs1) = base (fst bs)"
      using walk_keeps_all
          [where h = h and d = d and ?reldir1.0 = reldir and fl = fl and ?bs1.0 = bs] e
      by (simp add: keeps_def)
    have ent1: "entry_of h (base (fst bs)) reldir fl" using ent by simp
    have ent2: "\<forall>f\<in>set files. entry_of h (base (fst bs1)) reldir f" using ent b by simp
    from 5(1) ent1 e have w1: "scans_within h (base (fst bs)) reldir d (snd bs) (snd bs1)"
      by blast
    from 5(2) [of bs1] ent2 l b
    have w2: "scans_within h (base (fst bs)) reldir d (snd bs1) (snd bs')" by simp
    from w1 w2 show "scans_within h (base (fst bs)) reldir d (snd bs) (snd bs')"
      by (rule scans_within_trans)
  qed
qed

subsection \<open>The nesting of the calls\<close>

declare AllocatePluginDir_entry_fuel.simps [simp del]

text \<open>
  A budget above \<^verbatim>\<open>maxdepth\<close> always suffices: the walk with a budget then returns what the
  walk returns.
\<close>

lemma walk_fuel_all:
  "(\<forall>n. d < n \<longrightarrow> AllocatePluginDir_fuel n h d absdir reldir bs
                    = Some (AllocatePluginDir h d absdir reldir bs))
 \<and> (\<forall>n. d < n \<longrightarrow> AllocatePluginDir_entry_fuel n h d reldir1 fl bs1
                    = Some (AllocatePluginDir_entry h d reldir1 fl bs1))
 \<and> (\<forall>n. d < n \<longrightarrow> AllocatePluginDir_loop_fuel n h d reldir2 files bs2
                    = Some (AllocatePluginDir_loop h d reldir2 files bs2))"
proof (rule walk_induct
    [where P = "\<lambda>d absdir reldir bs. \<forall>n. d < n \<longrightarrow>
                  AllocatePluginDir_fuel n h d absdir reldir bs
                    = Some (AllocatePluginDir h d absdir reldir bs)"
       and E = "\<lambda>d reldir fl bs. \<forall>n. d < n \<longrightarrow>
                  AllocatePluginDir_entry_fuel n h d reldir fl bs
                    = Some (AllocatePluginDir_entry h d reldir fl bs)"
       and Q = "\<lambda>d reldir files bs. \<forall>n. d < n \<longrightarrow>
                  AllocatePluginDir_loop_fuel n h d reldir files bs
                    = Some (AllocatePluginDir_loop h d reldir files bs)"],
    goal_cases)
  case (1 absdir reldir bs)
  show ?case
  proof (intro allI impI)
    fix n :: nat
    assume "0 < n"
    then obtain m where "n = Suc m" by (cases n) auto
    then show "AllocatePluginDir_fuel n h 0 absdir reldir bs
                 = Some (AllocatePluginDir h 0 absdir reldir bs)"
      by (cases bs) (simp add: AllocatePluginDir_0)
  qed
next
  case (2 d absdir reldir bs)
  show ?case
  proof (intro allI impI)
    fix n :: nat
    assume "Suc d < n"
    then obtain m where n: "n = Suc m" and m: "d < m" by (cases n) auto
    obtain bank s where bs: "bs = (bank, s)" by (cases bs)
    show "AllocatePluginDir_fuel n h (Suc d) absdir reldir bs
            = Some (AllocatePluginDir h (Suc d) absdir reldir bs)"
      unfolding n bs using 2 m
      by (simp add: AllocatePluginDir_Suc split: option.splits)
  qed
next
  case (3 d reldir fl bs)
  show ?case
  proof (intro allI impI)
    fix n :: nat
    assume n: "d < n"
    obtain bank s where bs: "bs = (bank, s)" by (cases bs)
    show "AllocatePluginDir_entry_fuel n h d reldir fl bs
            = Some (AllocatePluginDir_entry h d reldir fl bs)"
      unfolding bs AllocatePluginDir_entry_fuel.simps AllocatePluginDir_entry.simps
      using 3 n
      by (simp add: Let_def split: prod.splits bool.splits option.splits sum.splits)
  qed
next
  case (4 d reldir bs)
  show ?case by simp
next
  case (5 d reldir fl files bs)
  show ?case
  proof (intro allI impI)
    fix n :: nat
    assume n: "d < n"
    from 5(1) n have e: "AllocatePluginDir_entry_fuel n h d reldir fl bs
                          = Some (AllocatePluginDir_entry h d reldir fl bs)" by blast
    show "AllocatePluginDir_loop_fuel n h d reldir (fl # files) bs
            = Some (AllocatePluginDir_loop h d reldir (fl # files) bs)"
      using e 5(2) n by (simp split: sum.splits)
  qed
qed

text \<open>An entry that is a directory is walked with the \<^verbatim>\<open>maxdepth\<close> of the loop.\<close>

lemma entry_directory:
  assumes "fl \<noteq> ''.''" and "fl \<noteq> ''..''"
      and "\<not> out_of_memory h (allocs s)" and "\<not> out_of_memory h (Suc (allocs s))"
      and "is_dir h (abs_of h (base bank) (Some (rel_join h reldir fl)))"
  shows "AllocatePluginDir_entry h d reldir fl (bank, s) =
           AllocatePluginDir h d (abs_of h (base bank) (Some (rel_join h reldir fl)))
             (Some (rel_join h reldir fl)) (bank, s\<lparr>allocs := allocs s + 2\<rparr>)"
proof -
  from assms(5) obtain st where
    st: "vlc_stat h (base bank @ DIR_SEP h @ rel_join h reldir fl) = Some st"
        "st_mode st = S_IFDIR"
    by (auto simp: is_dir_def abs_of_def split: option.splits)
  show ?thesis
    unfolding AllocatePluginDir_entry.simps rel_join_def [symmetric]
    using assms(1-4) st by (simp add: alloc_def Let_def abs_of_def)
qed

text \<open>On the directory that contains itself every descent goes through \<^verbatim>\<open>loop\<close>.\<close>

lemma loop_host_descends:
  "descends loop_host root r comps \<Longrightarrow> comps = replicate (length comps) ''loop''"
proof (induction comps arbitrary: r)
  case Nil
  show ?case by simp
next
  case (Cons c cs)
  from Cons.prems have c: "c = ''loop''"
    by (auto simp: entry_of_def loop_host_def)
  from Cons.prems have "descends loop_host root (Some (rel_join loop_host r c)) cs" by simp
  from Cons.IH [OF this] c show ?case by simp
qed

lemma loop_host_level_4:
  assumes "length comps \<le> 3" and "descends loop_host ''r'' None comps"
  shows "abs_of loop_host ''r'' (walk_to loop_host None comps) \<noteq> ''r/loop/loop/loop/loop''"
proof -
  from assms(2) have c: "comps = replicate (length comps) ''loop''"
    by (rule loop_host_descends)
  from assms(1) have "length comps = 0 \<or> length comps = 1 \<or> length comps = 2
                        \<or> length comps = 3" by arith
  then have "comps = [] \<or> comps = [''loop''] \<or> comps = [''loop'', ''loop'']
               \<or> comps = [''loop'', ''loop'', ''loop'']"
    using c by (auto simp: numeral_eq_Suc)
  then show ?thesis
    by (auto simp: abs_of_def rel_join_def loop_host_def host0_def)
qed

text \<open>
  Claim C10. The recursion of \<^verbatim>\<open>AllocatePluginDir\<close> is bounded by its depth argument, on
  every host, directory cycles included (a directory listing is a finite list):
  \<^item> with a budget of more than \<^verbatim>\<open>maxdepth\<close> nested activations the walk with a budget
    returns, and returns what the walk returns: the calls are never nested deeper than
    \<^verbatim>\<open>maxdepth\<close> below the first one;
  \<^item> a call with \<^verbatim>\<open>maxdepth = 0\<close> returns at once and leaves bank and state alone;
  \<^item> a call with \<^verbatim>\<open>maxdepth = d + 1\<close> runs its loop with \<open>d\<close>, and an entry that is a
    directory is walked by a call with the \<^verbatim>\<open>maxdepth\<close> of the loop (\<open>d\<close>);
  \<^item> whenever a walk of \<open>reldir\<close> with \<^verbatim>\<open>maxdepth\<close> returns, every directory it has opened
    is reached from \<open>reldir\<close> through at most \<^verbatim>\<open>maxdepth\<close> - 1 directory entries, and every
    file it has loaded is an entry of such a directory.
\<close>

theorem AllocatePluginDir_depth_bounded:
  "(maxdepth < fuel \<longrightarrow>
      AllocatePluginDir_fuel fuel h maxdepth absdir reldir (bank, s)
        = Some (AllocatePluginDir h maxdepth absdir reldir (bank, s)))
 \<and> AllocatePluginDir h 0 absdir reldir (bank, s) = Inr (bank, s)
 \<and> AllocatePluginDir h (Suc d) absdir reldir (bank, s) =
     (case vlc_opendir h absdir of
        None \<Rightarrow> Inr (bank, emit (Opendir absdir) s)
      | Some files \<Rightarrow> AllocatePluginDir_loop h d reldir files (bank, emit (Opendir absdir) s))
 \<and> (fl \<noteq> ''.'' \<and> fl \<noteq> ''..'' \<and> \<not> out_of_memory h (allocs s)
      \<and> \<not> out_of_memory h (Suc (allocs s))
      \<and> is_dir h (abs_of h (base bank) (Some (rel_join h reldir fl))) \<longrightarrow>
      AllocatePluginDir_entry h d reldir fl (bank, s) =
        AllocatePluginDir h d (abs_of h (base bank) (Some (rel_join h reldir fl)))
          (Some (rel_join h reldir fl)) (bank, s\<lparr>allocs := allocs s + 2\<rparr>))
 \<and> (\<forall>bank' s'. AllocatePluginDir h maxdepth (abs_of h (base bank) reldir) reldir (bank, s)
                   = Inr (bank', s')
       \<longrightarrow> scans_within h (base bank) reldir (maxdepth - 1) s s')"
proof (intro conjI allI impI)
  assume "maxdepth < fuel"
  with walk_fuel_all
    [where d = maxdepth and h = h and absdir = absdir and reldir = reldir and bs = "(bank, s)"]
  show "AllocatePluginDir_fuel fuel h maxdepth absdir reldir (bank, s)
          = Some (AllocatePluginDir h maxdepth absdir reldir (bank, s))"
    by blast
next
  show "AllocatePluginDir h 0 absdir reldir (bank, s) = Inr (bank, s)"
    by (rule AllocatePluginDir_0)
next
  show "AllocatePluginDir h (Suc d) absdir reldir (bank, s) =
     (case vlc_opendir h absdir of
        None \<Rightarrow> Inr (bank, emit (Opendir absdir) s)
      | Some files \<Rightarrow> AllocatePluginDir_loop h d reldir files (bank, emit (Opendir absdir) s))"
    by (rule AllocatePluginDir_Suc)
next
  assume "fl \<noteq> ''.'' \<and> fl \<noteq> ''..'' \<and> \<not> out_of_memory h (allocs s)
      \<and> \<not> out_of_memory h (Suc (allocs s))
      \<and> is_dir h (abs_of h (base bank) (Some (rel_join h reldir fl)))"
  then show "AllocatePluginDir_entry h d reldir fl (bank, s) =
        AllocatePluginDir h d (abs_of h (base bank) (Some (rel_join h reldir fl)))
          (Some (rel_join h reldir fl)) (bank, s\<lparr>allocs := allocs s + 2\<rparr>)"
    by (intro entry_directory) simp_all
next
  fix bank' s'
  assume r: "AllocatePluginDir h maxdepth (abs_of h (base bank) reldir) reldir (bank, s)
               = Inr (bank', s')"
  from walk_scans_all
    [where absdir = "abs_of h (base bank) reldir" and h = h and bs = "(bank, s)"
       and reldir = reldir and d = maxdepth]
  have "\<forall>bs'. AllocatePluginDir h maxdepth (abs_of h (base bank) reldir) reldir (bank, s)
                 = Inr bs'
          \<longrightarrow> scans_within h (base bank) reldir (maxdepth - 1) s (snd bs')"
    by simp
  with r show "scans_within h (base bank) reldir (maxdepth - 1) s s'" by fastforce
qed

text \<open>
  A root whose every entry \<^verbatim>\<open>loop\<close> is the directory itself. The walk of depth 5 needs six
  nested activations, and five do not suffice; it opens the root and four levels below it
  and returns. What it has opened lies within four levels and not within three.
\<close>

theorem AllocatePluginDir_depth_bounded_witness:
  "(5 :: nat) < 6
 \<and> AllocatePluginDir_fuel 6 loop_host 5 (abs_of loop_host (base (bank_of_mode CACHE_IGNORE)) None)
       None (bank_of_mode CACHE_IGNORE, state0)
     = Some (Inr (bank_of_mode CACHE_IGNORE,
            state0\<lparr>trace := [Opendir ''r'', Opendir ''r/loop'', Opendir ''r/loop/loop'',
                              Opendir ''r/loop/loop/loop'', Opendir ''r/loop/loop/loop/loop''],
                    allocs := 10\<rparr>))
 \<and> AllocatePluginDir_fuel 5 loop_host 5 (abs_of loop_host (base (bank_of_mode CACHE_IGNORE)) None)
       None (bank_of_mode CACHE_IGNORE, state0) = None
 \<and> AllocatePluginDir loop_host 5 (abs_of loop_host (base (bank_of_mode CACHE_IGNORE)) None) None
       (bank_of_mode CACHE_IGNORE, state0)
     = Inr (bank_of_mode CACHE_IGNORE,
            state0\<lparr>trace := [Opendir ''r'', Opendir ''r/loop'', Opendir ''r/loop/loop'',
                              Opendir ''r/loop/loop/loop'', Opendir ''r/loop/loop/loop/loop''],
                    allocs := 10\<rparr>)
 \<and> scans_within loop_host (base (bank_of_mode CACHE_IGNORE)) None (5 - 1) state0
      (state0\<lparr>trace := [Opendir ''r'', Opendir ''r/loop'', Opendir ''r/loop/loop'',
                         Opendir ''r/loop/loop/loop'', Opendir ''r/loop/loop/loop/loop''],
               allocs := 10\<rparr>)
 \<and> \<not> scans_within loop_host (base (bank_of_mode CACHE_IGNORE)) None 3 state0
      (state0\<lparr>trace := [Opendir ''r'', Opendir ''r/loop'', Opendir ''r/loop/loop'',
                         Opendir ''r/loop/loop/loop'', Opendir ''r/loop/loop/loop/loop''],
               allocs := 10\<rparr>)"
proof -
  let ?B = "bank_of_mode CACHE_IGNORE"
  let ?S = "state0\<lparr>trace := [Opendir ''r'', Opendir ''r/loop'', Opendir ''r/loop/loop'',
                         Opendir ''r/loop/loop/loop'', Opendir ''r/loop/loop/loop/loop''],
               allocs := 10\<rparr>"
  let ?a = "abs_of loop_host (base ?B) None"
  note inst = AllocatePluginDir_depth_bounded
    [where h = loop_host and reldir = None and bank = ?B and s = state0 and maxdepth = 5
       and fuel = 6 and absdir = ?a]
  have ev: "AllocatePluginDir loop_host 5 ?a None (?B, state0) = Inr (?B, ?S)"
    by (simp add: loop_host_def bank_of_mode_def abs_of_def eval_defs)
  have short: "AllocatePluginDir_fuel 5 loop_host 5 ?a None (?B, state0) = None"
    by (simp add: loop_host_def bank_of_mode_def abs_of_def eval_defs
          AllocatePluginDir_entry_fuel.simps)
  have lt: "(5 :: nat) < 6" by simp
  from inst lt have "AllocatePluginDir_fuel 6 loop_host 5 ?a None (?B, state0)
                       = Some (AllocatePluginDir loop_host 5 ?a None (?B, state0))"
    by blast
  then have fuel: "AllocatePluginDir_fuel 6 loop_host 5 ?a None (?B, state0)
                     = Some (Inr (?B, ?S))"
    by (simp only: ev)
  from inst ev have within: "scans_within loop_host (base ?B) None (5 - 1) state0 ?S"
    by blast
  have base: "base ?B = ''r''" by (simp add: bank_of_mode_def)
  have tight: "\<not> scans_within loop_host (base ?B) None 3 state0 ?S"
  proof
    assume "scans_within loop_host (base ?B) None 3 state0 ?S"
    then obtain evs where t: "trace ?S = trace state0 @ evs"
      and o: "\<forall>p. Opendir p \<in> set evs \<longrightarrow>
              (\<exists>comps. length comps \<le> 3 \<and> descends loop_host ''r'' None comps
                    \<and> p = abs_of loop_host ''r'' (walk_to loop_host None comps))"
      unfolding scans_within_def base by blast
    from t have "evs = [Opendir ''r'', Opendir ''r/loop'', Opendir ''r/loop/loop'',
                        Opendir ''r/loop/loop/loop'', Opendir ''r/loop/loop/loop/loop'']"
      by (simp add: state0_def)
    then have "Opendir ''r/loop/loop/loop/loop'' \<in> set evs" by simp
    with o obtain comps where "length comps \<le> 3" "descends loop_host ''r'' None comps"
      "''r/loop/loop/loop/loop'' = abs_of loop_host ''r'' (walk_to loop_host None comps)"
      by blast
    with loop_host_level_4 show False by metis
  qed
  from lt fuel short ev within tight show ?thesis by (intro conjI)
qed

subsection \<open>How deep a scan goes\<close>

text \<open>The entries \<^verbatim>\<open>.\<close> and \<^verbatim>\<open>..\<close> are passed over.\<close>

lemma entry_dot [simp]:
  "AllocatePluginDir_entry h d r ''.'' bs = Inr bs"
  "AllocatePluginDir_entry h d r ''..'' bs = Inr bs"
  by (cases bs, simp add: AllocatePluginDir_entry.simps)+



















end
